theory Spec2Isabelle
  imports Main "HOL-Library.Word"
begin

section \<open>Platform and system services\<close>

text \<open>
  The model of \<^verbatim>\<open>memory_atomic.c\<close> fixes the ILP32 data model: \<^verbatim>\<open>unsigned int\<close>,
  \<^verbatim>\<open>size_t\<close> and pointers are 32 bits wide, so the counters of a pool and its
  configured bounds are words of the same width and all C arithmetic on them wraps
  as the word operations do. Addresses are natural numbers, 0 is \<^verbatim>\<open>NULL\<close>. A block
  obtained from \<^verbatim>\<open>malloc\<close> is identified with its base address; sizes and contents
  of blocks are not tracked.
\<close>

type_synonym addr = nat

type_synonym uint = "32 word"

type_synonym size_t = "32 word"

definition sizeof_list_head :: nat where
  "sizeof_list_head = 8"

definition sizeof_pool_handle :: size_t where
  "sizeof_pool_handle = 4"

definition size_t_bits :: size_t where
  "size_t_bits = 32"

text \<open>
  The C library: \<open>live\<close> are the blocks handed out by \<^verbatim>\<open>malloc\<close> and not yet freed,
  \<open>grant\<close> decides for each request of a system resource (counted by \<open>calls\<close>)
  whether it succeeds, so that every pattern of allocation failures is a system state.
  A successful \<^verbatim>\<open>malloc\<close> returns a base address above every live block.
\<close>

record sys =
  live :: "addr list"
  calls :: nat
  grant :: "nat \<Rightarrow> bool"

definition fresh_block :: "addr list \<Rightarrow> addr" where
  "fresh_block bs = fold max bs 0 + 16"

definition malloc :: "sys \<Rightarrow> addr option \<times> sys" where
  "malloc s =
     (if grant s (calls s)
      then (Some (fresh_block (live s)),
            s\<lparr>live := fresh_block (live s) # live s, calls := Suc (calls s)\<rparr>)
      else (None, s\<lparr>calls := Suc (calls s)\<rparr>))"

definition free :: "addr \<Rightarrow> sys \<Rightarrow> sys" where
  "free a s = s\<lparr>live := removeAll a (live s)\<rparr>"

definition pthread_mutex_init :: "sys \<Rightarrow> bool \<times> sys" where
  "pthread_mutex_init s = (grant s (calls s), s\<lparr>calls := Suc (calls s)\<rparr>)"

text \<open>
  Modelled from the spec: the intrusive list of \<^verbatim>\<open>list.h\<close>, which is not among the
  sources. A list head with its nodes is the list of the nodes' addresses, first node
  first: \<^verbatim>\<open>list_add_tail\<close> appends a node, \<^verbatim>\<open>list_del\<close> unlinks one,
  \<^verbatim>\<open>head.next\<close> of a list that is not empty is its first node.
\<close>

definition list_empty :: "addr list \<Rightarrow> bool" where
  "list_empty head = (head = [])"

definition list_add_tail :: "addr \<Rightarrow> addr list \<Rightarrow> addr list" where
  "list_add_tail node head = head @ [node]"

definition list_del :: "addr \<Rightarrow> addr list \<Rightarrow> addr list" where
  "list_del node head = remove1 node head"

definition list_next :: "addr list \<Rightarrow> addr" where
  "list_next head = hd head"

text \<open>
  A failed \<^verbatim>\<open>assert\<close> aborts the program; the model returns it as a value that
  names the line of the assertion. A shift by the width of the type or more is
  undefined in C.
\<close>

datatype fault = Assertion nat | Undefined_shift

section \<open>The chunk pool\<close>

text \<open>
  \<^verbatim>\<open>struct rtsafe_memory_pool\<close>, with the address of the structure itself. The mutex
  has no state of its own here: operations run one after another, a blocking lock is
  always acquired, and whether \<^verbatim>\<open>pthread_mutex_trylock\<close> acquires the mutex is an
  input of the operation that tries. In a pool without thread safety \<open>unused_count2\<close>
  and \<open>pending\<close> are never read.
\<close>

record rtsafe_memory_pool =
  pool_ptr :: addr
  data_size :: size_t
  min_preallocated :: size_t
  max_preallocated :: size_t
  used_count :: uint
  unused :: "addr list"
  unused_count :: uint
  enforce_thread_safety :: bool
  unused_count2 :: uint
  pending :: "addr list"

lemma uint_succ_below: "(c :: uint) < m \<Longrightarrow> unat (c + 1) = Suc (unat c)"
proof -
  assume "c < m"
  then have "unat c < unat m" by (simp add: word_less_nat_alt)
  moreover have "unat m < 2 ^ 32" using unsigned_less [of m] by simp
  ultimately have "unat c + 1 < 2 ^ 32" by simp
  then show ?thesis by (simp add: unat_word_ariths)
qed

lemma uint_pred_nonzero: "(c :: uint) \<noteq> 0 \<Longrightarrow> unat (c - 1) < unat c"
  by (metis measure_unat)

lemma uint_pred_above: "(m :: uint) < c \<Longrightarrow> unat (c - 1) < unat c"
  by (rule uint_pred_nonzero) (metis word_not_simps(1))

lemma list_del_next_length: "\<not> list_empty head \<Longrightarrow> length (list_del (list_next head) head) < length head"
  by (cases head) (simp_all add: list_empty_def list_del_def list_next_def)

subsection \<open>Maintenance\<close>

text \<open>The two loops of the thread-safe branch, on the local \<^verbatim>\<open>count\<close>.\<close>

function sleepy_grow_pending ::
  "rtsafe_memory_pool \<Rightarrow> uint \<Rightarrow> sys \<Rightarrow> rtsafe_memory_pool \<times> uint \<times> sys" where
  "sleepy_grow_pending p count s =
     (if count < min_preallocated p then
        (case malloc s of
           (None, s') \<Rightarrow> (p, count, s')
         | (Some node_ptr, s') \<Rightarrow>
             sleepy_grow_pending
               (p\<lparr>pending := list_add_tail node_ptr (pending p)\<rparr>) (count + 1) s')
      else (p, count, s))"
  by pat_completeness auto
termination
  by (relation "measure (\<lambda>(p, count, s). unat (min_preallocated p) - unat count)")
     (auto simp: uint_succ_below word_less_nat_alt)

function sleepy_trim_pending ::
  "rtsafe_memory_pool \<Rightarrow> uint \<Rightarrow> sys \<Rightarrow> rtsafe_memory_pool \<times> uint \<times> sys" where
  "sleepy_trim_pending p count s =
     (if max_preallocated p < count \<and> \<not> list_empty (pending p) then
        (let node_ptr = list_next (pending p) in
         sleepy_trim_pending
           (p\<lparr>pending := list_del node_ptr (pending p)\<rparr>) (count - 1) (free node_ptr s))
      else (p, count, s))"
  by pat_completeness auto
termination
  by (relation "measure (\<lambda>(p, count, s). unat count)") (auto simp: uint_pred_above)

text \<open>
  The two loops of the branch without thread safety. The first leaves the function when
  \<^verbatim>\<open>malloc\<close> fails: its first result says whether the second loop is reached.
\<close>

function sleepy_grow_unused ::
  "rtsafe_memory_pool \<Rightarrow> sys \<Rightarrow> bool \<times> rtsafe_memory_pool \<times> sys" where
  "sleepy_grow_unused p s =
     (if unused_count p < min_preallocated p then
        (case malloc s of
           (None, s') \<Rightarrow> (False, p, s')
         | (Some node_ptr, s') \<Rightarrow>
             sleepy_grow_unused
               (p\<lparr>unused := list_add_tail node_ptr (unused p),
                  unused_count := unused_count p + 1\<rparr>) s')
      else (True, p, s))"
  by pat_completeness auto
termination
  by (relation "measure (\<lambda>(p, s). unat (min_preallocated p) - unat (unused_count p))")
     (auto simp: uint_succ_below word_less_nat_alt)

function sleepy_trim_unused ::
  "rtsafe_memory_pool \<Rightarrow> sys \<Rightarrow> fault + rtsafe_memory_pool \<times> sys" where
  "sleepy_trim_unused p s =
     (if max_preallocated p < unused_count p then
        (if list_empty (unused p) then Inl (Assertion 201)
         else
           (let node_ptr = list_next (unused p) in
            sleepy_trim_unused
              (p\<lparr>unused := list_del node_ptr (unused p),
                 unused_count := unused_count p - 1\<rparr>) (free node_ptr s)))
      else Inr (p, s))"
  by pat_completeness auto
termination
  by (relation "measure (\<lambda>(p, s). unat (unused_count p))") (auto simp: uint_pred_above)

definition rtsafe_memory_pool_sleepy ::
  "rtsafe_memory_pool \<Rightarrow> sys \<Rightarrow> fault + rtsafe_memory_pool \<times> sys" where
  "rtsafe_memory_pool_sleepy p s =
     (if enforce_thread_safety p then
        (if \<not> min_preallocated p < max_preallocated p then Inl (Assertion 157)
         else
           (case sleepy_grow_pending p (unused_count2 p) s of
              (p1, count1, s1) \<Rightarrow>
                (case sleepy_trim_pending p1 count1 s1 of
                   (p2, count2, s2) \<Rightarrow> Inr (p2, s2))))
      else
        (case sleepy_grow_unused p s of
           (False, p1, s1) \<Rightarrow> Inr (p1, s1)
         | (True, p1, s1) \<Rightarrow> sleepy_trim_unused p1 s1))"

subsection \<open>Construction and destruction\<close>

text \<open>
  The result is a fault, or the new pool (\<open>None\<close> where the C function returns
  \<^verbatim>\<open>false\<close>) with the system state.
\<close>

definition rtsafe_memory_pool_create ::
  "size_t \<Rightarrow> size_t \<Rightarrow> size_t \<Rightarrow> bool \<Rightarrow> sys \<Rightarrow>
     fault + rtsafe_memory_pool option \<times> sys" where
  "rtsafe_memory_pool_create dsize minp maxp thread_safe s =
     (if \<not> minp \<le> maxp then Inl (Assertion 62)
      else
        (case malloc s of
           (None, s1) \<Rightarrow> Inr (None, s1)
         | (Some ptr, s1) \<Rightarrow>
             (let p = \<lparr>pool_ptr = ptr, data_size = dsize, min_preallocated = minp,
                        max_preallocated = maxp, used_count = 0, unused = [],
                        unused_count = 0, enforce_thread_safety = thread_safe,
                        unused_count2 = 0, pending = []\<rparr>
              in
                if thread_safe then
                  (case pthread_mutex_init s1 of
                     (False, s2) \<Rightarrow> Inr (None, free ptr s2)
                   | (True, s2) \<Rightarrow>
                       (case rtsafe_memory_pool_sleepy p s2 of
                          Inl f \<Rightarrow> Inl f
                        | Inr (p', s3) \<Rightarrow> Inr (Some p', s3)))
                else
                  (case rtsafe_memory_pool_sleepy p s1 of
                     Inl f \<Rightarrow> Inl f
                   | Inr (p', s3) \<Rightarrow> Inr (Some p', s3)))))"

function destroy_unused ::
  "rtsafe_memory_pool \<Rightarrow> sys \<Rightarrow> fault + rtsafe_memory_pool \<times> sys" where
  "destroy_unused p s =
     (if unused_count p \<noteq> 0 then
        (if list_empty (unused p) then Inl (Assertion 113)
         else
           (let node_ptr = list_next (unused p) in
            destroy_unused
              (p\<lparr>unused := list_del node_ptr (unused p),
                 unused_count := unused_count p - 1\<rparr>) (free node_ptr s)))
      else Inr (p, s))"
  by pat_completeness auto
termination
  by (relation "measure (\<lambda>(p, s). unat (unused_count p))") (auto simp: uint_pred_nonzero)

function destroy_pending :: "rtsafe_memory_pool \<Rightarrow> sys \<Rightarrow> rtsafe_memory_pool \<times> sys" where
  "destroy_pending p s =
     (if \<not> list_empty (pending p) then
        (let node_ptr = list_next (pending p) in
         destroy_pending (p\<lparr>pending := list_del node_ptr (pending p)\<rparr>) (free node_ptr s))
      else (p, s))"
  by pat_completeness auto
termination
  by (relation "measure (\<lambda>(p, s). length (pending p))") (auto simp: list_del_next_length)

text \<open>
  Destroying the mutex of a pool succeeds (nothing holds it between operations), so the
  assertion on its result holds.
\<close>

definition rtsafe_memory_pool_destroy :: "rtsafe_memory_pool \<Rightarrow> sys \<Rightarrow> fault + sys" where
  "rtsafe_memory_pool_destroy p s =
     (if used_count p \<noteq> 0 then Inl (Assertion 109)
      else
        (case destroy_unused p s of
           Inl f \<Rightarrow> Inl f
         | Inr (p1, s1) \<Rightarrow>
             if \<not> list_empty (unused p1) then Inl (Assertion 123)
             else if enforce_thread_safety p1 then
               (case destroy_pending p1 s1 of (p2, s2) \<Rightarrow> Inr (free (pool_ptr p2) s2))
             else Inr (free (pool_ptr p1) s1)))"

subsection \<open>Allocation and deallocation\<close>

text \<open>
  The replenishing loop of \<^verbatim>\<open>rtsafe_memory_pool_allocate\<close> assigns the local
  \<^verbatim>\<open>node_ptr\<close>, which the function returns afterwards: the loop carries it.
\<close>

function allocate_refill :: "rtsafe_memory_pool \<Rightarrow> addr \<Rightarrow> rtsafe_memory_pool \<times> addr" where
  "allocate_refill p node_ptr =
     (if unused_count p < min_preallocated p \<and> \<not> list_empty (pending p) then
        (let node_ptr' = list_next (pending p) in
         allocate_refill
           (p\<lparr>pending := list_del node_ptr' (pending p),
              unused := list_add_tail node_ptr' (unused p),
              unused_count := unused_count p + 1\<rparr>) node_ptr')
      else (p, node_ptr))"
  by pat_completeness auto
termination
  by (relation "measure (\<lambda>(p, node_ptr). length (pending p))")
     (auto simp: list_del_next_length)

text \<open>
  The result is the returned pointer (\<open>None\<close> for \<^verbatim>\<open>NULL\<close>) and the pool.
  \<^verbatim>\<open>node_ptr + 1\<close> is the address just after the list node.
\<close>

definition rtsafe_memory_pool_allocate ::
  "rtsafe_memory_pool \<Rightarrow> bool \<Rightarrow> addr option \<times> rtsafe_memory_pool" where
  "rtsafe_memory_pool_allocate p trylock =
     (if list_empty (unused p) then (None, p)
      else
        (let node_ptr = list_next (unused p);
             p1 = p\<lparr>unused := list_del node_ptr (unused p),
                    unused_count := unused_count p - 1,
                    used_count := used_count p + 1\<rparr>
         in
           if enforce_thread_safety p1 \<and> trylock then
             (case allocate_refill p1 node_ptr of
                (p2, node_ptr') \<Rightarrow>
                  (Some (node_ptr' + sizeof_list_head),
                   p2\<lparr>unused_count2 := unused_count p2\<rparr>))
           else (Some (node_ptr + sizeof_list_head), p1)))"

function deallocate_trim :: "rtsafe_memory_pool \<Rightarrow> fault + rtsafe_memory_pool" where
  "deallocate_trim p =
     (if max_preallocated p < unused_count p then
        (if list_empty (unused p) then Inl (Assertion 267)
         else
           (let node_ptr = list_next (unused p) in
            deallocate_trim
              (p\<lparr>unused := list_del node_ptr (unused p),
                 pending := list_add_tail node_ptr (pending p),
                 unused_count := unused_count p - 1\<rparr>)))
      else Inr p)"
  by pat_completeness auto
termination
  by (relation "measure (\<lambda>p. unat (unused_count p))") (auto simp: uint_pred_above)

definition rtsafe_memory_pool_deallocate ::
  "rtsafe_memory_pool \<Rightarrow> addr \<Rightarrow> bool \<Rightarrow> fault + rtsafe_memory_pool" where
  "rtsafe_memory_pool_deallocate p data trylock =
     (let p1 = p\<lparr>unused := list_add_tail (data - sizeof_list_head) (unused p),
                 used_count := used_count p - 1,
                 unused_count := unused_count p + 1\<rparr>
      in
        if enforce_thread_safety p1 \<and> trylock then
          (case deallocate_trim p1 of
             Inl f \<Rightarrow> Inl f
           | Inr p2 \<Rightarrow> Inr (p2\<lparr>unused_count2 := unused_count p2\<rparr>))
        else Inr p1)"

text \<open>
  The loop of \<^verbatim>\<open>rtsafe_memory_pool_allocate_sleepy\<close> may run forever: the result
  \<open>None\<close> is that it never returns. \<open>trylock i\<close> is whether the \<open>i\<close>-th allocation
  of the loop acquires the mutex.
\<close>

partial_function (option) rtsafe_memory_pool_allocate_sleepy ::
  "(nat \<Rightarrow> bool) \<Rightarrow> nat \<Rightarrow> rtsafe_memory_pool \<Rightarrow> sys \<Rightarrow>
     (fault + addr \<times> rtsafe_memory_pool \<times> sys) option" where
  "rtsafe_memory_pool_allocate_sleepy trylock i p s =
     (case rtsafe_memory_pool_sleepy p s of
        Inl f \<Rightarrow> Some (Inl f)
      | Inr (p1, s1) \<Rightarrow>
          (case rtsafe_memory_pool_allocate p1 (trylock i) of
             (None, p2) \<Rightarrow> rtsafe_memory_pool_allocate_sleepy trylock (Suc i) p2 s1
           | (Some data, p2) \<Rightarrow> Some (Inr (data, p2, s1))))"

section \<open>The tiered allocator\<close>

definition DATA_MIN :: size_t where
  "DATA_MIN = 1024"

definition DATA_SUB :: size_t where
  "DATA_SUB = 100"

text \<open>
  \<^verbatim>\<open>struct rtsafe_memory_pool_generic\<close> (its member \<^verbatim>\<open>size\<close> is \<open>size_p\<close>) with the
  pool itself in place of its handle, and \<^verbatim>\<open>struct rtsafe_memory\<close> with the addresses
  of the structure and of its table of pools.
\<close>

record rtsafe_memory_pool_generic =
  size_p :: size_t
  pool :: rtsafe_memory_pool

record rtsafe_memory =
  memory_ptr :: addr
  pools_ptr :: addr
  pools :: "rtsafe_memory_pool_generic list"
  pools_count :: size_t

lemma size_t_succ_bits: "\<not> size_t_bits \<le> (c :: size_t) \<Longrightarrow> unat (c + 1) = Suc (unat c)"
  by (simp add: uint_succ_below [of c size_t_bits])

text \<open>
  The loop that counts the size classes, from \<^verbatim>\<open>pools_count = 1\<close>. The shift
  \<^verbatim>\<open>size << pools_count\<close> is undefined once \<^verbatim>\<open>pools_count\<close> reaches the width of
  \<^verbatim>\<open>size_t\<close>.
\<close>

function init_pools_count :: "size_t \<Rightarrow> size_t \<Rightarrow> fault + size_t" where
  "init_pools_count max_size count =
     (if size_t_bits \<le> count then Inl Undefined_shift
      else if push_bit (unat count) DATA_MIN < max_size + DATA_SUB then
        (if size_t_bits < count + 1 then Inl (Assertion 343)
         else init_pools_count max_size (count + 1))
      else Inr count)"
  by pat_completeness auto
termination
  by (relation "measure (\<lambda>(max_size, count). unat size_t_bits - unat count)")
     (auto simp: size_t_succ_bits word_le_nat_alt)

text \<open>
  The loop \<^verbatim>\<open>while (i > 0)\<close> that destroys the pools \<open>i - 1\<close> down to 0 after a
  failed creation; the table \<open>ps\<close> holds the pools created so far.
\<close>

function init_destroy_pools ::
  "size_t \<Rightarrow> rtsafe_memory_pool_generic list \<Rightarrow> sys \<Rightarrow> fault + sys" where
  "init_destroy_pools i ps s =
     (if 0 < i then
        (case rtsafe_memory_pool_destroy (pool (ps ! unat (i - 1))) s of
           Inl f \<Rightarrow> Inl f
         | Inr s1 \<Rightarrow> init_destroy_pools (i - 1) ps s1)
      else Inr s)"
  by pat_completeness auto
termination
  by (relation "measure (\<lambda>(i, ps, s). unat i)") (auto simp: uint_pred_above)

text \<open>
  The loop that creates the pools, from \<^verbatim>\<open>i = 0\<close> and \<^verbatim>\<open>size = DATA_MIN\<close> (the local \<^verbatim>\<open>size\<close> is \<open>sz\<close>); \<open>ps\<close>
  are the entries 0 to \<open>i - 1\<close> of the table. The result \<open>None\<close> is the jump to
  \<^verbatim>\<open>fail_free_pools\<close>.
\<close>

function init_create_pools ::
  "size_t \<Rightarrow> size_t \<Rightarrow> size_t \<Rightarrow> bool \<Rightarrow> size_t \<Rightarrow> size_t \<Rightarrow>
     rtsafe_memory_pool_generic list \<Rightarrow> sys \<Rightarrow>
     fault + rtsafe_memory_pool_generic list option \<times> sys" where
  "init_create_pools count prealloc_min prealloc_max thread_safe i sz ps s =
     (if i < count then
        (case rtsafe_memory_pool_create (sz - DATA_SUB) prealloc_min prealloc_max
                thread_safe s of
           Inl f \<Rightarrow> Inl f
         | Inr (None, s1) \<Rightarrow>
             (case init_destroy_pools i ps s1 of
                Inl f \<Rightarrow> Inl f
              | Inr s2 \<Rightarrow> Inr (None, s2))
         | Inr (Some p, s1) \<Rightarrow>
             init_create_pools count prealloc_min prealloc_max thread_safe (i + 1)
               (push_bit 1 sz) (ps @ [\<lparr>size_p = sz - DATA_SUB, pool = p\<rparr>]) s1)
      else Inr (Some ps, s))"
  by pat_completeness auto
termination
  by (relation "measure (\<lambda>(count, prealloc_min, prealloc_max, thread_safe, i, sz, ps, s).
        unat count - unat i)")
     (auto simp: uint_succ_below word_less_nat_alt)

text \<open>
  The result is a fault, or the allocator (\<open>None\<close> where the C function returns
  \<^verbatim>\<open>false\<close> and leaves the handle unset) with the system state.
\<close>

definition rtsafe_memory_init ::
  "size_t \<Rightarrow> size_t \<Rightarrow> size_t \<Rightarrow> bool \<Rightarrow> sys \<Rightarrow> fault + rtsafe_memory option \<times> sys" where
  "rtsafe_memory_init max_size prealloc_min prealloc_max thread_safe s =
     (case malloc s of
        (None, s1) \<Rightarrow> Inr (None, s1)
      | (Some mptr, s1) \<Rightarrow>
          (case init_pools_count max_size 1 of
             Inl f \<Rightarrow> Inl f
           | Inr count \<Rightarrow>
               (case malloc s1 of
                  (None, s2) \<Rightarrow> Inr (None, free mptr s2)
                | (Some pptr, s2) \<Rightarrow>
                    (case init_create_pools count prealloc_min prealloc_max thread_safe
                            0 DATA_MIN [] s2 of
                       Inl f \<Rightarrow> Inl f
                     | Inr (None, s3) \<Rightarrow> Inr (None, free mptr (free pptr s3))
                     | Inr (Some ps, s3) \<Rightarrow>
                         Inr (Some \<lparr>memory_ptr = mptr, pools_ptr = pptr, pools = ps,
                                    pools_count = count\<rparr>, s3)))))"

text \<open>
  \<^verbatim>\<open>rtsafe_memory_allocate\<close> returns \<^verbatim>\<open>NULL\<close> in two places, which the log messages
  tell apart. The pool handle written in front of the returned data is a content of
  the chunk, which the model does not track.
\<close>

datatype failure = Data_size_too_big | Pool_allocate_failed

function allocate_scan ::
  "rtsafe_memory \<Rightarrow> size_t \<Rightarrow> bool \<Rightarrow> size_t \<Rightarrow> (failure + addr) \<times> rtsafe_memory" where
  "allocate_scan m sz trylock i =
     (if i < pools_count m then
        (if sz \<le> size_p (pools m ! unat i) then
           (case rtsafe_memory_pool_allocate (pool (pools m ! unat i)) trylock of
              (None, p') \<Rightarrow>
                (Inl Pool_allocate_failed,
                 m\<lparr>pools := (pools m)[unat i := (pools m ! unat i)\<lparr>pool := p'\<rparr>]\<rparr>)
            | (Some data_ptr, p') \<Rightarrow>
                (Inr (data_ptr + unat sizeof_pool_handle),
                 m\<lparr>pools := (pools m)[unat i := (pools m ! unat i)\<lparr>pool := p'\<rparr>]\<rparr>))
         else allocate_scan m sz trylock (i + 1))
      else (Inl Data_size_too_big, m))"
  by pat_completeness auto
termination
  by (relation "measure (\<lambda>(m, sz, trylock, i). unat (pools_count m) - unat i)")
     (auto simp: uint_succ_below word_less_nat_alt)

definition rtsafe_memory_allocate ::
  "rtsafe_memory \<Rightarrow> size_t \<Rightarrow> bool \<Rightarrow> (failure + addr) \<times> rtsafe_memory" where
  "rtsafe_memory_allocate m sz trylock =
     allocate_scan m (sz + sizeof_pool_handle) trylock 0"

section \<open>Sequences of calls\<close>

text \<open>
  Consecutive allocations from a pool, one for each element of the list, which says
  whether the call acquires the mutex; the results are the returned pointers in order.
\<close>

fun allocate_times ::
  "bool list \<Rightarrow> rtsafe_memory_pool \<Rightarrow> addr option list \<times> rtsafe_memory_pool" where
  "allocate_times [] p = ([], p)"
| "allocate_times (trylock # rest) p =
     (case rtsafe_memory_pool_allocate p trylock of
        (r, p') \<Rightarrow> (case allocate_times rest p' of (rs, p'') \<Rightarrow> (r # rs, p'')))"

text \<open>
  A client of one pool calls allocation, deallocation and maintenance in any order.
  \<open>held\<close> are the pointers that allocation has returned to it and that it has not
  passed back; it deallocates only a pointer it holds. A run stops when an assertion
  fails or when the client is asked to deallocate a pointer it does not hold.
\<close>

datatype call = Allocate bool | Deallocate addr bool | Sleepy

datatype stop = Aborted fault | Not_held addr

record session =
  the_pool :: rtsafe_memory_pool
  the_sys :: sys
  held :: "addr list"

fun step :: "call \<Rightarrow> session \<Rightarrow> stop + session" where
  "step (Allocate trylock) st =
     (case rtsafe_memory_pool_allocate (the_pool st) trylock of
        (None, p') \<Rightarrow> Inr (st\<lparr>the_pool := p'\<rparr>)
      | (Some data, p') \<Rightarrow> Inr (st\<lparr>the_pool := p', held := data # held st\<rparr>))"
| "step (Deallocate data trylock) st =
     (if data \<in> set (held st) then
        (case rtsafe_memory_pool_deallocate (the_pool st) data trylock of
           Inl f \<Rightarrow> Inl (Aborted f)
         | Inr p' \<Rightarrow> Inr (st\<lparr>the_pool := p', held := remove1 data (held st)\<rparr>))
      else Inl (Not_held data))"
| "step Sleepy st =
     (case rtsafe_memory_pool_sleepy (the_pool st) (the_sys st) of
        Inl f \<Rightarrow> Inl (Aborted f)
      | Inr (p', s') \<Rightarrow> Inr (st\<lparr>the_pool := p', the_sys := s'\<rparr>))"

fun run :: "call list \<Rightarrow> session \<Rightarrow> stop + session" where
  "run [] st = Inr st"
| "run (c # cs) st = (case step c st of Inl e \<Rightarrow> Inl e | Inr st' \<Rightarrow> run cs st')"

section \<open>Example system states\<close>

text \<open>A system with nothing allocated that grants every request.\<close>

definition all_granted :: sys where
  "all_granted = \<lparr>live = [], calls = 0, grant = (\<lambda>_. True)\<rparr>"

text \<open>A system with nothing allocated that grants every request but the \<open>k\<close>-th.\<close>

definition denied_at :: "nat \<Rightarrow> sys" where
  "denied_at k = \<lparr>live = [], calls = 0, grant = (\<lambda>n. n \<noteq> k)\<rparr>"

section \<open>Predicates on pools and system states\<close>

text \<open>
  \<open>same_config\<close>: two states of a pool agree on everything but the lists and their
  counters. \<open>accounted B p s\<close>: the live blocks of the system are the chunks on the
  two lists of the pool, which hold no chunk twice, and the blocks \<open>B\<close> apart from
  them.
\<close>

definition same_config :: "rtsafe_memory_pool \<Rightarrow> rtsafe_memory_pool \<Rightarrow> bool" where
  "same_config p p' =
     (pool_ptr p' = pool_ptr p \<and> data_size p' = data_size p \<and>
      min_preallocated p' = min_preallocated p \<and> max_preallocated p' = max_preallocated p \<and>
      enforce_thread_safety p' = enforce_thread_safety p \<and> used_count p' = used_count p)"

definition accounted :: "addr set \<Rightarrow> rtsafe_memory_pool \<Rightarrow> sys \<Rightarrow> bool" where
  "accounted B p s =
     (distinct (unused p @ pending p) \<and> set (live s) = B \<union> set (unused p @ pending p) \<and>
      B \<inter> set (unused p @ pending p) = {})"

text \<open>
  The invariant of a client session: the chunks of the held pointers are live blocks
  apart from the lists of the pool, no two held pointers share a chunk, and a
  thread-safe pool has handed out nothing and has nothing on its unused list.
\<close>

definition owned_apart :: "session \<Rightarrow> bool" where
  "owned_apart st =
     (\<exists>B. accounted B (the_pool st) (the_sys st) \<and>
        (\<lambda>data. data - sizeof_list_head) ` set (held st) \<subseteq> B \<and>
        distinct (map (\<lambda>data. data - sizeof_list_head) (held st)) \<and>
        (enforce_thread_safety (the_pool st) \<longrightarrow>
           unused (the_pool st) = [] \<and> held st = []))"

text \<open>
  The invariant of a client session on the counters: the unused counter is the length
  of the unused list as an unsigned int, and a thread-safe pool keeps its minimum below
  its maximum, has nothing on its unused list and has handed out nothing.
\<close>

definition steady :: "session \<Rightarrow> bool" where
  "steady st =
     (unused_count (the_pool st) = of_nat (length (unused (the_pool st))) \<and>
      (enforce_thread_safety (the_pool st) \<longrightarrow>
         min_preallocated (the_pool st) < max_preallocated (the_pool st) \<and>
         unused (the_pool st) = [] \<and> held st = []))"

text \<open>
  The blocks that belong to a pool; a pool that destruction accepts; a table of pools
  whose blocks make up the live blocks of the system together with the blocks \<open>B\<close>.
\<close>

definition blocks :: "rtsafe_memory_pool \<Rightarrow> addr set" where
  "blocks p = insert (pool_ptr p) (set (unused p) \<union> set (pending p))"

definition destroyable :: "rtsafe_memory_pool \<Rightarrow> bool" where
  "destroyable p =
     (used_count p = 0 \<and> unat (unused_count p) = length (unused p) \<and>
      (enforce_thread_safety p \<or> pending p = []))"

definition tracked :: "addr set \<Rightarrow> rtsafe_memory_pool_generic list \<Rightarrow> sys \<Rightarrow> bool" where
  "tracked B ps s =
     (set (live s) = B \<union> (\<Union>g \<in> set ps. blocks (pool g)) \<and>
      B \<inter> (\<Union>g \<in> set ps. blocks (pool g)) = {} \<and>
      (\<forall>g \<in> set ps. destroyable (pool g)))"

section \<open>Lemmas about the model\<close>

declare sleepy_grow_pending.simps [simp del] sleepy_trim_pending.simps [simp del]
  sleepy_grow_unused.simps [simp del] sleepy_trim_unused.simps [simp del]
  destroy_unused.simps [simp del] destroy_pending.simps [simp del]
  allocate_refill.simps [simp del] deallocate_trim.simps [simp del]
  init_pools_count.simps [simp del] init_destroy_pools.simps [simp del]
  init_create_pools.simps [simp del] allocate_scan.simps [simp del]

lemmas list_defs = list_empty_def list_add_tail_def list_del_def list_next_def

subsection \<open>Unfolding the loops one step\<close>

lemma sleepy_grow_pending_stop:
  "\<not> count < min_preallocated p \<Longrightarrow> sleepy_grow_pending p count s = (p, count, s)"
  by (subst sleepy_grow_pending.simps) simp

lemma sleepy_grow_pending_fail:
  "count < min_preallocated p \<Longrightarrow> malloc s = (None, s') \<Longrightarrow>
   sleepy_grow_pending p count s = (p, count, s')"
  by (subst sleepy_grow_pending.simps) simp

lemma sleepy_grow_pending_step:
  "count < min_preallocated p \<Longrightarrow> malloc s = (Some n, s') \<Longrightarrow>
   sleepy_grow_pending p count s =
     sleepy_grow_pending (p\<lparr>pending := list_add_tail n (pending p)\<rparr>) (count + 1) s'"
  by (subst sleepy_grow_pending.simps) simp

lemma sleepy_trim_pending_stop:
  "\<not> (max_preallocated p < count \<and> \<not> list_empty (pending p)) \<Longrightarrow>
   sleepy_trim_pending p count s = (p, count, s)"
  by (subst sleepy_trim_pending.simps) auto

lemma sleepy_trim_pending_step:
  "max_preallocated p < count \<Longrightarrow> \<not> list_empty (pending p) \<Longrightarrow>
   sleepy_trim_pending p count s =
     sleepy_trim_pending (p\<lparr>pending := list_del (list_next (pending p)) (pending p)\<rparr>)
       (count - 1) (free (list_next (pending p)) s)"
  by (subst sleepy_trim_pending.simps) (simp add: Let_def)

lemma sleepy_grow_unused_stop:
  "\<not> unused_count p < min_preallocated p \<Longrightarrow> sleepy_grow_unused p s = (True, p, s)"
  by (subst sleepy_grow_unused.simps) simp

lemma sleepy_grow_unused_fail:
  "unused_count p < min_preallocated p \<Longrightarrow> malloc s = (None, s') \<Longrightarrow>
   sleepy_grow_unused p s = (False, p, s')"
  by (subst sleepy_grow_unused.simps) simp

lemma sleepy_grow_unused_step:
  "unused_count p < min_preallocated p \<Longrightarrow> malloc s = (Some n, s') \<Longrightarrow>
   sleepy_grow_unused p s =
     sleepy_grow_unused
       (p\<lparr>unused := list_add_tail n (unused p), unused_count := unused_count p + 1\<rparr>) s'"
  by (subst sleepy_grow_unused.simps) simp

lemma sleepy_trim_unused_stop:
  "\<not> max_preallocated p < unused_count p \<Longrightarrow> sleepy_trim_unused p s = Inr (p, s)"
  by (subst sleepy_trim_unused.simps) simp

lemma sleepy_trim_unused_fault:
  "max_preallocated p < unused_count p \<Longrightarrow> list_empty (unused p) \<Longrightarrow>
   sleepy_trim_unused p s = Inl (Assertion 201)"
  by (subst sleepy_trim_unused.simps) simp

lemma sleepy_trim_unused_step:
  "max_preallocated p < unused_count p \<Longrightarrow> \<not> list_empty (unused p) \<Longrightarrow>
   sleepy_trim_unused p s =
     sleepy_trim_unused
       (p\<lparr>unused := list_del (list_next (unused p)) (unused p),
          unused_count := unused_count p - 1\<rparr>) (free (list_next (unused p)) s)"
  by (subst sleepy_trim_unused.simps) (simp add: Let_def)

lemma destroy_unused_stop:
  "unused_count p = 0 \<Longrightarrow> destroy_unused p s = Inr (p, s)"
  by (subst destroy_unused.simps) simp

lemma destroy_unused_fault:
  "unused_count p \<noteq> 0 \<Longrightarrow> list_empty (unused p) \<Longrightarrow>
   destroy_unused p s = Inl (Assertion 113)"
  by (subst destroy_unused.simps) simp

lemma destroy_unused_step:
  "unused_count p \<noteq> 0 \<Longrightarrow> \<not> list_empty (unused p) \<Longrightarrow>
   destroy_unused p s =
     destroy_unused
       (p\<lparr>unused := list_del (list_next (unused p)) (unused p),
          unused_count := unused_count p - 1\<rparr>) (free (list_next (unused p)) s)"
  by (subst destroy_unused.simps) (simp add: Let_def)

lemma destroy_pending_stop:
  "list_empty (pending p) \<Longrightarrow> destroy_pending p s = (p, s)"
  by (subst destroy_pending.simps) simp

lemma destroy_pending_step:
  "\<not> list_empty (pending p) \<Longrightarrow>
   destroy_pending p s =
     destroy_pending (p\<lparr>pending := list_del (list_next (pending p)) (pending p)\<rparr>)
       (free (list_next (pending p)) s)"
  by (subst destroy_pending.simps) (simp add: Let_def)

lemma allocate_refill_stop:
  "\<not> (unused_count p < min_preallocated p \<and> \<not> list_empty (pending p)) \<Longrightarrow>
   allocate_refill p node_ptr = (p, node_ptr)"
  by (subst allocate_refill.simps) auto

lemma deallocate_trim_stop:
  "\<not> max_preallocated p < unused_count p \<Longrightarrow> deallocate_trim p = Inr p"
  by (subst deallocate_trim.simps) simp

subsection \<open>Fresh blocks\<close>

lemma fold_max_upper: "b \<in> set bs \<Longrightarrow> b \<le> fold max bs (m :: nat)"
proof (induction bs arbitrary: m)
  case Nil
  then show ?case by simp
next
  case (Cons a bs)
  have mono: "\<And>k. k \<le> fold max bs k"
    by (metis Max.set_eq_fold Max_ge List.finite_set list.set_intros(1))
  from Cons show ?case
    using mono [of "max a m"] by auto
qed

lemma fresh_block_new: "fresh_block bs \<notin> set bs"
  using fold_max_upper [of "fresh_block bs" bs 0] by (auto simp: fresh_block_def)

lemma malloc_Some:
  "malloc s = (Some a, s') \<Longrightarrow>
   a \<notin> set (live s) \<and> live s' = a # live s \<and> grant s' = grant s"
  by (auto simp: malloc_def fresh_block_new split: if_splits)

lemma malloc_None: "malloc s = (None, s') \<Longrightarrow> live s' = live s \<and> grant s' = grant s"
  by (auto simp: malloc_def split: if_splits)

lemma live_free [simp]: "set (live (free a s)) = set (live s) - {a}"
  by (simp add: free_def)

lemma grant_free [simp]: "grant (free a s) = grant s"
  by (simp add: free_def)

subsection \<open>Maintenance keeps the blocks accounted\<close>

lemma list_del_Cons [simp]: "list_del n (n # ns) = ns"
  by (simp add: list_del_def)

lemma list_next_Cons [simp]: "list_next (n # ns) = n"
  by (simp add: list_next_def)

lemma list_empty_simps [simp]: "list_empty [] = True" "list_empty (n # ns) = False"
  by (simp_all add: list_empty_def)

lemma uint_pred_Suc: "unat (c :: uint) = Suc n \<Longrightarrow> unat (c - 1) = n"
  by (metis diff_Suc_1 nat.simps(3) unat_minus_one unsigned_0)

lemma accounted_malloc_None: "malloc s = (None, s') \<Longrightarrow> accounted B p s \<Longrightarrow> accounted B p s'"
  by (auto simp: accounted_def dest!: malloc_None)

lemma accounted_push_pending:
  "malloc s = (Some n, s') \<Longrightarrow> accounted B p s \<Longrightarrow>
   accounted B (p\<lparr>pending := list_add_tail n (pending p)\<rparr>) s'"
  by (auto simp: accounted_def list_add_tail_def dest!: malloc_Some)

lemma accounted_push_unused:
  "malloc s = (Some n, s') \<Longrightarrow> accounted B p s \<Longrightarrow>
   accounted B (p\<lparr>unused := list_add_tail n (unused p), unused_count := c\<rparr>) s'"
  by (auto simp: accounted_def list_add_tail_def dest!: malloc_Some)

lemma accounted_pop_pending:
  "\<not> list_empty (pending p) \<Longrightarrow> accounted B p s \<Longrightarrow>
   accounted B (p\<lparr>pending := list_del (list_next (pending p)) (pending p)\<rparr>)
     (free (list_next (pending p)) s)"
  by (cases "pending p") (auto simp: accounted_def)

lemma accounted_pop_unused:
  "\<not> list_empty (unused p) \<Longrightarrow> accounted B p s \<Longrightarrow>
   accounted B (p\<lparr>unused := list_del (list_next (unused p)) (unused p), unused_count := c\<rparr>)
     (free (list_next (unused p)) s)"
  by (cases "unused p") (auto simp: accounted_def)

lemma sleepy_grow_pending_keeps:
  "sleepy_grow_pending p c s = (p', c', s') \<Longrightarrow>
   same_config p p' \<and> unused p' = unused p \<and> unused_count p' = unused_count p \<and>
   unused_count2 p' = unused_count2 p \<and> grant s' = grant s \<and>
   (accounted B p s \<longrightarrow> accounted B p' s')"
proof (induction p c s rule: sleepy_grow_pending.induct)
  case (1 p count s)
  show ?case
  proof (cases "count < min_preallocated p")
    case False
    with "1.prems" show ?thesis
      by (simp add: sleepy_grow_pending_stop same_config_def)
  next
    case True
    obtain r s1 where m: "malloc s = (r, s1)" by (cases "malloc s")
    show ?thesis
    proof (cases r)
      case None
      with True m "1.prems" show ?thesis
        by (auto simp: sleepy_grow_pending_fail same_config_def accounted_malloc_None
            dest: malloc_None)
    next
      case (Some n)
      with True m "1.prems" have run:
        "sleepy_grow_pending (p\<lparr>pending := list_add_tail n (pending p)\<rparr>) (count + 1) s1 =
           (p', c', s')"
        by (simp add: sleepy_grow_pending_step)
      from "1.IH" [OF True m [symmetric] Some run] m Some show ?thesis
        by (auto simp: same_config_def accounted_push_pending dest: malloc_Some)
    qed
  qed
qed

lemma sleepy_trim_pending_keeps:
  "sleepy_trim_pending p c s = (p', c', s') \<Longrightarrow>
   same_config p p' \<and> unused p' = unused p \<and> unused_count p' = unused_count p \<and>
   unused_count2 p' = unused_count2 p \<and> grant s' = grant s \<and>
   (accounted B p s \<longrightarrow> accounted B p' s')"
proof (induction p c s rule: sleepy_trim_pending.induct)
  case (1 p count s)
  show ?case
  proof (cases "max_preallocated p < count \<and> \<not> list_empty (pending p)")
    case False
    with "1.prems" show ?thesis
      by (simp add: sleepy_trim_pending_stop same_config_def)
  next
    case True
    with "1.prems" have run:
      "sleepy_trim_pending (p\<lparr>pending := list_del (list_next (pending p)) (pending p)\<rparr>)
         (count - 1) (free (list_next (pending p)) s) = (p', c', s')"
      by (simp add: sleepy_trim_pending_step)
    from "1.IH" [OF True refl run] True show ?thesis
      by (auto simp: same_config_def accounted_pop_pending)
  qed
qed

lemma sleepy_grow_unused_keeps:
  "sleepy_grow_unused p s = (ok, p', s') \<Longrightarrow>
   same_config p p' \<and> pending p' = pending p \<and> unused_count2 p' = unused_count2 p \<and>
   grant s' = grant s \<and> (accounted B p s \<longrightarrow> accounted B p' s') \<and>
   (unat (unused_count p) = length (unused p) \<longrightarrow>
      unat (unused_count p') = length (unused p')) \<and>
   (ok \<longrightarrow> \<not> unused_count p' < min_preallocated p')"
proof (induction p s rule: sleepy_grow_unused.induct)
  case (1 p s)
  show ?case
  proof (cases "unused_count p < min_preallocated p")
    case False
    with "1.prems" show ?thesis
      by (simp add: sleepy_grow_unused_stop same_config_def)
  next
    case True
    obtain r s1 where m: "malloc s = (r, s1)" by (cases "malloc s")
    show ?thesis
    proof (cases r)
      case None
      with True m "1.prems" show ?thesis
        by (auto simp: sleepy_grow_unused_fail same_config_def accounted_malloc_None
            dest: malloc_None)
    next
      case (Some n)
      with True m "1.prems" have run:
        "sleepy_grow_unused
           (p\<lparr>unused := list_add_tail n (unused p), unused_count := unused_count p + 1\<rparr>) s1 =
           (ok, p', s')"
        by (simp add: sleepy_grow_unused_step)
      have count: "unat (unused_count p) = length (unused p) \<Longrightarrow>
          unat (unused_count p + 1) = length (list_add_tail n (unused p))"
        using True by (simp add: uint_succ_below list_add_tail_def)
      from "1.IH" [OF True m [symmetric] Some run] m Some count show ?thesis
        by (auto simp: same_config_def accounted_push_unused dest: malloc_Some)
    qed
  qed
qed

lemma sleepy_trim_unused_keeps:
  "sleepy_trim_unused p s = Inr (p', s') \<Longrightarrow>
   same_config p p' \<and> pending p' = pending p \<and> unused_count2 p' = unused_count2 p \<and>
   grant s' = grant s \<and> (accounted B p s \<longrightarrow> accounted B p' s') \<and>
   (unat (unused_count p) = length (unused p) \<longrightarrow>
      unat (unused_count p') = length (unused p'))"
proof (induction p s rule: sleepy_trim_unused.induct)
  case (1 p s)
  show ?case
  proof (cases "max_preallocated p < unused_count p")
    case False
    with "1.prems" show ?thesis
      by (simp add: sleepy_trim_unused_stop same_config_def)
  next
    case True
    show ?thesis
    proof (cases "list_empty (unused p)")
      case empty: True
      with True "1.prems" show ?thesis by (simp add: sleepy_trim_unused_fault)
    next
      case False
      with True "1.prems" have run:
        "sleepy_trim_unused
           (p\<lparr>unused := list_del (list_next (unused p)) (unused p),
              unused_count := unused_count p - 1\<rparr>) (free (list_next (unused p)) s) =
           Inr (p', s')"
        by (simp add: sleepy_trim_unused_step)
      have count: "unat (unused_count p) = length (unused p) \<Longrightarrow>
          unat (unused_count p - 1) = length (list_del (list_next (unused p)) (unused p))"
        using False by (cases "unused p") (simp_all add: uint_pred_Suc)
      from "1.IH" [OF True False refl run] False count show ?thesis
        by (auto simp: same_config_def accounted_pop_unused)
    qed
  qed
qed

lemma rtsafe_memory_pool_sleepy_keeps:
  assumes "rtsafe_memory_pool_sleepy p s = Inr (p', s')"
  shows "same_config p p' \<and> unused_count2 p' = unused_count2 p \<and> grant s' = grant s \<and>
    (accounted B p s \<longrightarrow> accounted B p' s') \<and>
    (if enforce_thread_safety p
     then unused p' = unused p \<and> unused_count p' = unused_count p
     else pending p' = pending p \<and>
       (unat (unused_count p) = length (unused p) \<longrightarrow>
          unat (unused_count p') = length (unused p')))"
proof (cases "enforce_thread_safety p")
  case True
  obtain p1 c1 s1 where g: "sleepy_grow_pending p (unused_count2 p) s = (p1, c1, s1)"
    by (cases "sleepy_grow_pending p (unused_count2 p) s")
  obtain p2 c2 s2 where t: "sleepy_trim_pending p1 c1 s1 = (p2, c2, s2)"
    by (cases "sleepy_trim_pending p1 c1 s1")
  from assms True g t have "p' = p2" "s' = s2"
    by (auto simp: rtsafe_memory_pool_sleepy_def split: if_splits)
  with sleepy_grow_pending_keeps [OF g, of B] sleepy_trim_pending_keeps [OF t, of B] True
  show ?thesis by (auto simp: same_config_def)
next
  case False
  obtain ok p1 s1 where g: "sleepy_grow_unused p s = (ok, p1, s1)"
    by (cases "sleepy_grow_unused p s")
  show ?thesis
  proof (cases ok)
    case stopped: False
    with assms False g have "p' = p1" "s' = s1"
      by (auto simp: rtsafe_memory_pool_sleepy_def)
    with sleepy_grow_unused_keeps [OF g, of B] False show ?thesis
      by (auto simp: same_config_def)
  next
    case True
    with assms False g have t: "sleepy_trim_unused p1 s1 = Inr (p', s')"
      by (auto simp: rtsafe_memory_pool_sleepy_def)
    with sleepy_grow_unused_keeps [OF g, of B] sleepy_trim_unused_keeps [OF t, of B] False
    show ?thesis by (auto simp: same_config_def)
  qed
qed

text \<open>No assertion of the loop fails on a pool whose counter is the length of its list.\<close>

lemma sleepy_trim_unused_runs:
  "unat (unused_count p) = length (unused p) \<Longrightarrow> \<exists>p' s'. sleepy_trim_unused p s = Inr (p', s')"
proof (induction p s rule: sleepy_trim_unused.induct)
  case (1 p s)
  show ?case
  proof (cases "max_preallocated p < unused_count p")
    case False
    then show ?thesis by (simp add: sleepy_trim_unused_stop)
  next
    case True
    then have "unused_count p \<noteq> 0" by (metis word_not_simps(1))
    with "1.prems" have ne: "\<not> list_empty (unused p)"
      by (cases "unused p") (auto simp: unat_eq_zero)
    have "unat (unused_count p - 1) = length (list_del (list_next (unused p)) (unused p))"
      using ne "1.prems" by (cases "unused p") (simp_all add: uint_pred_Suc)
    from "1.IH" [OF True ne refl] this True ne show ?thesis
      by (simp add: sleepy_trim_unused_step)
  qed
qed

lemma rtsafe_memory_pool_sleepy_runs:
  assumes "if enforce_thread_safety p then min_preallocated p < max_preallocated p
           else unat (unused_count p) = length (unused p)"
  shows "\<exists>p' s'. rtsafe_memory_pool_sleepy p s = Inr (p', s')"
proof (cases "enforce_thread_safety p")
  case True
  with assms show ?thesis
    by (simp add: rtsafe_memory_pool_sleepy_def split: prod.splits)
next
  case False
  obtain ok p1 s1 where g: "sleepy_grow_unused p s = (ok, p1, s1)"
    by (cases "sleepy_grow_unused p s")
  from sleepy_grow_unused_keeps [OF g, of "{}"] assms False
  have "unat (unused_count p1) = length (unused p1)" by simp
  from sleepy_trim_unused_runs [OF this, of s1] g False show ?thesis
    by (cases ok) (auto simp: rtsafe_memory_pool_sleepy_def)
qed

subsection \<open>Construction of a pool\<close>

lemma pthread_mutex_init_keeps:
  "pthread_mutex_init s = (ok, s') \<Longrightarrow> live s' = live s \<and> grant s' = grant s"
  by (auto simp: pthread_mutex_init_def)

lemma accounted_live: "live s' = live s \<Longrightarrow> accounted B p s \<Longrightarrow> accounted B p s'"
  by (simp add: accounted_def)

lemma rtsafe_memory_pool_create_Some:
  assumes "rtsafe_memory_pool_create ds mn mx ts s = Inr (Some p, s')"
  shows "enforce_thread_safety p = ts \<and> data_size p = ds \<and> min_preallocated p = mn \<and>
    max_preallocated p = mx \<and> used_count p = 0 \<and> unused_count2 p = 0 \<and>
    pool_ptr p \<notin> set (live s) \<and> accounted (insert (pool_ptr p) (set (live s))) p s' \<and>
    grant s' = grant s \<and>
    (if ts then unused p = [] \<and> unused_count p = 0 \<and> mn < mx
     else pending p = [] \<and> unat (unused_count p) = length (unused p) \<and> mn \<le> mx)"
proof -
  from assms have le: "mn \<le> mx"
    by (simp add: rtsafe_memory_pool_create_def split: if_splits)
  from assms obtain ptr s1 where m: "malloc s = (Some ptr, s1)"
    by (cases "malloc s") (auto simp: rtsafe_memory_pool_create_def split: if_splits option.splits)
  define p0 where "p0 = \<lparr>pool_ptr = ptr, data_size = ds, min_preallocated = mn,
    max_preallocated = mx, used_count = 0, unused = [], unused_count = 0,
    enforce_thread_safety = ts, unused_count2 = 0, pending = []\<rparr>"
  have acc0: "accounted (insert ptr (set (live s))) p0 s1"
    using malloc_Some [OF m] by (auto simp: accounted_def p0_def)
  have fresh: "ptr \<notin> set (live s)" and g1: "grant s1 = grant s"
    using malloc_Some [OF m] by auto
  show ?thesis
  proof (cases ts)
    case True
    from assms m le True obtain s2 where
      i: "pthread_mutex_init s1 = (True, s2)" and
      run: "rtsafe_memory_pool_sleepy p0 s2 = Inr (p, s')"
      by (cases "pthread_mutex_init s1")
        (auto simp: rtsafe_memory_pool_create_def p0_def split: bool.splits sum.splits)
    from run True have "mn < mx"
      by (auto simp: rtsafe_memory_pool_sleepy_def p0_def split: if_splits)
    with rtsafe_memory_pool_sleepy_keeps [OF run, of "insert ptr (set (live s))"]
      accounted_live [OF _ acc0, of s2] pthread_mutex_init_keeps [OF i] fresh g1 True
    show ?thesis by (auto simp: same_config_def p0_def)
  next
    case False
    from assms m le False have run: "rtsafe_memory_pool_sleepy p0 s1 = Inr (p, s')"
      by (auto simp: rtsafe_memory_pool_create_def p0_def split: sum.splits)
    with rtsafe_memory_pool_sleepy_keeps [OF run, of "insert ptr (set (live s))"]
      acc0 fresh g1 False le
    show ?thesis by (auto simp: same_config_def p0_def)
  qed
qed

lemma rtsafe_memory_pool_create_None:
  assumes "rtsafe_memory_pool_create ds mn mx ts s = Inr (None, s')"
  shows "set (live s') = set (live s) \<and> grant s' = grant s"
proof (cases "malloc s")
  case (Pair r s1)
  show ?thesis
  proof (cases r)
    case None
    with assms Pair malloc_None [of s s1] show ?thesis
      by (auto simp: rtsafe_memory_pool_create_def split: if_splits)
  next
    case (Some ptr)
    with Pair have m: "malloc s = (Some ptr, s1)" by simp
    from assms m obtain s2 where "pthread_mutex_init s1 = (False, s2)" "s' = free ptr s2"
      by (cases "pthread_mutex_init s1")
        (auto simp: rtsafe_memory_pool_create_def Let_def
          split: if_splits bool.splits sum.splits)
    with malloc_Some [OF m] pthread_mutex_init_keeps [of s1 False s2] show ?thesis
      by auto
  qed
qed

lemma rtsafe_memory_pool_create_outcome:
  assumes "if ts then mn < mx else mn \<le> mx"
  shows "\<exists>r s'. rtsafe_memory_pool_create ds mn mx ts s = Inr (r, s') \<and>
    (r = None \<longleftrightarrow> \<not> grant s (calls s) \<or> ts \<and> \<not> grant s (Suc (calls s)))"
proof -
  from assms have le: "mn \<le> mx" by (auto split: if_splits)
  show ?thesis
  proof (cases "grant s (calls s)")
    case False
    with le show ?thesis by (simp add: rtsafe_memory_pool_create_def malloc_def)
  next
    case True
    define ptr where "ptr = fresh_block (live s)"
    define s1 where "s1 = s\<lparr>live := ptr # live s, calls := Suc (calls s)\<rparr>"
    from True have m: "malloc s = (Some ptr, s1)"
      by (simp add: malloc_def ptr_def s1_def)
    define p0 where "p0 = \<lparr>pool_ptr = ptr, data_size = ds, min_preallocated = mn,
      max_preallocated = mx, used_count = 0, unused = [], unused_count = 0,
      enforce_thread_safety = ts, unused_count2 = 0, pending = []\<rparr>"
    have "\<exists>p' s'. rtsafe_memory_pool_sleepy p0 s0 = Inr (p', s')" for s0
      using assms by (intro rtsafe_memory_pool_sleepy_runs) (simp add: p0_def)
    then obtain p' s' where sl: "rtsafe_memory_pool_sleepy p0 s0 = Inr (p' s0, s' s0)" for s0
      by metis
    have i: "pthread_mutex_init s1 =
        (grant s (Suc (calls s)), s1\<lparr>calls := Suc (Suc (calls s))\<rparr>)"
      by (simp add: pthread_mutex_init_def s1_def)
    from m le True sl i show ?thesis
      by (cases ts; cases "grant s (Suc (calls s))")
        (auto simp: rtsafe_memory_pool_create_def p0_def Let_def)
  qed
qed

subsection \<open>Maintenance with every request granted\<close>

lemma malloc_granted: "\<forall>n. grant s n \<Longrightarrow> \<exists>a s'. malloc s = (Some a, s')"
  by (simp add: malloc_def)

lemma sleepy_grow_pending_granted:
  "\<forall>n. grant s n \<Longrightarrow> c \<le> min_preallocated p \<Longrightarrow>
   sleepy_grow_pending p c s = (p', c', s') \<Longrightarrow>
   c' = min_preallocated p \<and>
   length (pending p') + unat c = length (pending p) + unat (min_preallocated p)"
proof (induction p c s rule: sleepy_grow_pending.induct)
  case (1 p count s)
  show ?case
  proof (cases "count < min_preallocated p")
    case False
    with "1.prems" show ?thesis
      by (auto simp: sleepy_grow_pending_stop)
  next
    case True
    from malloc_granted [OF "1.prems"(1)] obtain n s1 where m: "malloc s = (Some n, s1)"
      by blast
    with True "1.prems" have run:
      "sleepy_grow_pending (p\<lparr>pending := list_add_tail n (pending p)\<rparr>) (count + 1) s1 =
         (p', c', s')"
      by (simp add: sleepy_grow_pending_step)
    from malloc_Some [OF m] "1.prems"(1) have g: "\<forall>n. grant s1 n" by simp
    from True have le: "count + 1 \<le> min_preallocated p"
      by (simp add: inc_le)
    from "1.IH" [OF True m [symmetric] refl g _ run] le True show ?thesis
      by (simp add: uint_succ_below list_add_tail_def)
  qed
qed

lemma rtsafe_memory_pool_sleepy_granted:
  assumes "enforce_thread_safety p" and "\<forall>n. grant s n"
    and "unused_count2 p \<le> min_preallocated p"
    and "rtsafe_memory_pool_sleepy p s = Inr (p', s')"
  shows "length (pending p') + unat (unused_count2 p) =
    length (pending p) + unat (min_preallocated p)"
proof -
  from assms have lt: "min_preallocated p < max_preallocated p"
    by (auto simp: rtsafe_memory_pool_sleepy_def split: if_splits)
  obtain p1 c1 s1 where g: "sleepy_grow_pending p (unused_count2 p) s = (p1, c1, s1)"
    by (cases "sleepy_grow_pending p (unused_count2 p) s")
  from sleepy_grow_pending_granted [OF assms(2,3) g] sleepy_grow_pending_keeps [OF g, of "{}"]
  have c1: "c1 = min_preallocated p1" "max_preallocated p1 = max_preallocated p"
    "min_preallocated p1 = min_preallocated p"
    and len: "length (pending p1) + unat (unused_count2 p) =
      length (pending p) + unat (min_preallocated p)"
    by (auto simp: same_config_def)
  with lt have "sleepy_trim_pending p1 c1 s1 = (p1, c1, s1)"
    by (intro sleepy_trim_pending_stop) auto
  with assms g lt have "p' = p1"
    by (simp add: rtsafe_memory_pool_sleepy_def)
  with len show ?thesis by simp
qed

lemma rtsafe_memory_pool_create_sleepy:
  assumes "rtsafe_memory_pool_create ds mn mx ts s = Inr (Some p, s')"
  shows "\<exists>ptr s0. grant s0 = grant s \<and>
    rtsafe_memory_pool_sleepy
      \<lparr>pool_ptr = ptr, data_size = ds, min_preallocated = mn, max_preallocated = mx,
       used_count = 0, unused = [], unused_count = 0, enforce_thread_safety = ts,
       unused_count2 = 0, pending = []\<rparr> s0 = Inr (p, s')"
proof -
  from assms obtain ptr s1 where m: "malloc s = (Some ptr, s1)"
    by (cases "malloc s") (auto simp: rtsafe_memory_pool_create_def split: if_splits option.splits)
  show ?thesis
  proof (cases ts)
    case True
    from assms m True obtain s2 where
      "pthread_mutex_init s1 = (True, s2)" and
      "rtsafe_memory_pool_sleepy
        \<lparr>pool_ptr = ptr, data_size = ds, min_preallocated = mn, max_preallocated = mx,
         used_count = 0, unused = [], unused_count = 0, enforce_thread_safety = ts,
         unused_count2 = 0, pending = []\<rparr> s2 = Inr (p, s')"
      by (cases "pthread_mutex_init s1")
        (auto simp: rtsafe_memory_pool_create_def split: if_splits bool.splits sum.splits)
    with malloc_Some [OF m] pthread_mutex_init_keeps [of s1 True s2] show ?thesis
      by auto
  next
    case False
    from assms m False have
      "rtsafe_memory_pool_sleepy
        \<lparr>pool_ptr = ptr, data_size = ds, min_preallocated = mn, max_preallocated = mx,
         used_count = 0, unused = [], unused_count = 0, enforce_thread_safety = ts,
         unused_count2 = 0, pending = []\<rparr> s1 = Inr (p, s')"
      by (auto simp: rtsafe_memory_pool_create_def split: if_splits sum.splits)
    with malloc_Some [OF m] show ?thesis by auto
  qed
qed

subsection \<open>Allocation\<close>

lemma allocate_sleepy_thread_safe_diverges:
  assumes "enforce_thread_safety p" and "unused p = []"
    and "min_preallocated p < max_preallocated p"
  shows "rtsafe_memory_pool_allocate_sleepy trylock i p s = None"
proof -
  have "\<not> (enforce_thread_safety p \<and> unused p = [] \<and>
      min_preallocated p < max_preallocated p)"
    if "rtsafe_memory_pool_allocate_sleepy trylock i p s = Some y" for y
  proof (rule rtsafe_memory_pool_allocate_sleepy.raw_induct
      [where P = "\<lambda>t i p s y. \<not> (enforce_thread_safety p \<and> unused p = [] \<and>
        min_preallocated p < max_preallocated p)", OF _ that])
    fix loop :: "(nat \<Rightarrow> bool) \<Rightarrow> nat \<Rightarrow> rtsafe_memory_pool \<Rightarrow> sys \<Rightarrow>
      (fault + addr \<times> rtsafe_memory_pool \<times> sys) option"
    fix trylock i p s y
    assume IH: "\<And>t i p s y. loop t i p s = Some y \<Longrightarrow>
      \<not> (enforce_thread_safety p \<and> unused p = [] \<and>
        min_preallocated p < max_preallocated p)"
    assume body: "(case rtsafe_memory_pool_sleepy p s of
        Inl f \<Rightarrow> Some (Inl f)
      | Inr (p1, s1) \<Rightarrow>
          (case rtsafe_memory_pool_allocate p1 (trylock i) of
             (None, p2) \<Rightarrow> loop trylock (Suc i) p2 s1
           | (Some data, p2) \<Rightarrow> Some (Inr (data, p2, s1)))) = Some y"
    show "\<not> (enforce_thread_safety p \<and> unused p = [] \<and>
        min_preallocated p < max_preallocated p)"
    proof
      assume pre: "enforce_thread_safety p \<and> unused p = [] \<and>
        min_preallocated p < max_preallocated p"
      then obtain p1 s1 where run: "rtsafe_memory_pool_sleepy p s = Inr (p1, s1)"
        using rtsafe_memory_pool_sleepy_runs [of p s] by auto
      from rtsafe_memory_pool_sleepy_keeps [OF run, of "{}"] pre
      have pre1: "enforce_thread_safety p1 \<and> unused p1 = [] \<and>
        min_preallocated p1 < max_preallocated p1"
        by (auto simp: same_config_def)
      then have "rtsafe_memory_pool_allocate p1 (trylock i) = (None, p1)"
        by (simp add: rtsafe_memory_pool_allocate_def)
      with body run have "loop trylock (Suc i) p1 s1 = Some y" by simp
      from IH [OF this] pre1 show False by simp
    qed
  qed
  with assms show ?thesis by (cases "rtsafe_memory_pool_allocate_sleepy trylock i p s") auto
qed

lemma allocate_without_refill:
  assumes "unused p = n # ns"
    and "pending p = [] \<or> \<not> enforce_thread_safety p \<or> \<not> trylock"
  shows "\<exists>p'. rtsafe_memory_pool_allocate p trylock = (Some (n + sizeof_list_head), p') \<and>
    unused p' = ns \<and> unused_count p' = unused_count p - 1 \<and>
    used_count p' = used_count p + 1 \<and> pending p' = pending p \<and>
    enforce_thread_safety p' = enforce_thread_safety p"
  using assms
  by (auto simp: rtsafe_memory_pool_allocate_def Let_def allocate_refill_stop)

lemma allocate_times_pops_all:
  "pending p = [] \<or> \<not> enforce_thread_safety p \<or> (\<forall>t \<in> set trylocks. \<not> t) \<Longrightarrow>
   length trylocks = length (unused p) \<Longrightarrow>
   unused_count p = of_nat (length (unused p)) \<Longrightarrow>
   allocate_times (trylocks @ [trylock]) p = (rs, p') \<Longrightarrow>
   rs = map (\<lambda>n. Some (n + sizeof_list_head)) (unused p) @ [None] \<and>
   unused p' = [] \<and> unused_count p' = 0 \<and>
   used_count p' = used_count p + of_nat (length (unused p))"
proof (induction trylocks arbitrary: p rs)
  case Nil
  then show ?case
    by (auto simp: rtsafe_memory_pool_allocate_def)
next
  case (Cons t ts)
  then obtain n ns where u: "unused p = n # ns" by (cases "unused p") auto
  from Cons.prems(1) have "pending p = [] \<or> \<not> enforce_thread_safety p \<or> \<not> t" by auto
  from allocate_without_refill [OF u this] obtain p1 where
    a: "rtsafe_memory_pool_allocate p t = (Some (n + sizeof_list_head), p1)" and
    p1: "unused p1 = ns" "unused_count p1 = unused_count p - 1"
      "used_count p1 = used_count p + 1" "pending p1 = pending p"
      "enforce_thread_safety p1 = enforce_thread_safety p"
    by blast
  obtain rs1 where rest: "allocate_times (ts @ [trylock]) p1 = (rs1, p')"
    and rs: "rs = Some (n + sizeof_list_head) # rs1"
    using Cons.prems(4) a by (auto split: prod.splits)
  have c1: "unused_count p1 = of_nat (length (unused p1))"
    using Cons.prems(3) u p1 by simp
  have "pending p1 = [] \<or> \<not> enforce_thread_safety p1 \<or> (\<forall>t \<in> set ts. \<not> t)"
    using Cons.prems(1) p1 by auto
  from Cons.IH [OF this _ c1 rest] Cons.prems(2) u p1 rs show ?case
    by (simp add: algebra_simps)
qed

subsection \<open>Sessions\<close>

lemma accounted_take:
  assumes "accounted B p s" and "unused p = n # ns"
  shows "accounted (insert n B) (p\<lparr>unused := ns, unused_count := c, used_count := u\<rparr>) s"
    and "n \<notin> B"
  using assms by (auto simp: accounted_def)

lemma accounted_give:
  assumes "accounted B p s" and "n \<in> B"
  shows "accounted (B - {n})
    (p\<lparr>unused := list_add_tail n (unused p), used_count := u, unused_count := c\<rparr>) s"
  using assms by (auto simp: accounted_def list_add_tail_def)

lemma step_owned_apart:
  assumes "owned_apart st" and "step c st = Inr st'"
  shows "owned_apart st'"
proof -
  from assms(1) obtain B where
    acc: "accounted B (the_pool st) (the_sys st)" and
    sub: "(\<lambda>data. data - sizeof_list_head) ` set (held st) \<subseteq> B" and
    dist: "distinct (map (\<lambda>data. data - sizeof_list_head) (held st))" and
    ts: "enforce_thread_safety (the_pool st) \<longrightarrow> unused (the_pool st) = [] \<and> held st = []"
    by (auto simp: owned_apart_def)
  show ?thesis
  proof (cases c)
    case (Allocate trylock)
    show ?thesis
    proof (cases "unused (the_pool st)")
      case Nil
      with assms(2) Allocate have "st' = st"
        by (simp add: rtsafe_memory_pool_allocate_def)
      with assms(1) show ?thesis by simp
    next
      case (Cons n ns)
      with ts have nts: "\<not> enforce_thread_safety (the_pool st)" by auto
      with assms(2) Allocate Cons have st':
        "st' = st\<lparr>the_pool := (the_pool st)\<lparr>unused := ns,
            unused_count := unused_count (the_pool st) - 1,
            used_count := used_count (the_pool st) + 1\<rparr>,
          held := (n + sizeof_list_head) # held st\<rparr>"
        by (simp add: rtsafe_memory_pool_allocate_def Let_def)
      from accounted_take [OF acc Cons] sub dist nts show ?thesis
        unfolding st' owned_apart_def
        by (intro exI [of _ "insert n B"]) auto
    qed
  next
    case (Deallocate data trylock)
    with assms(2) have h: "data \<in> set (held st)"
      by (auto split: if_splits)
    with ts have nts: "\<not> enforce_thread_safety (the_pool st)" by auto
    with assms(2) Deallocate h have st':
      "st' = st\<lparr>the_pool := (the_pool st)\<lparr>unused :=
            list_add_tail (data - sizeof_list_head) (unused (the_pool st)),
            used_count := used_count (the_pool st) - 1,
            unused_count := unused_count (the_pool st) + 1\<rparr>,
          held := remove1 data (held st)\<rparr>"
      by (simp add: rtsafe_memory_pool_deallocate_def Let_def)
    from h sub have inB: "data - sizeof_list_head \<in> B" by auto
    from dist have inj: "inj_on (\<lambda>data. data - sizeof_list_head) (set (held st))"
      and dh: "distinct (held st)"
      by (simp_all add: distinct_map)
    from dh have rem: "set (remove1 data (held st)) = set (held st) - {data}" by simp
    have d': "distinct (map (\<lambda>data. data - sizeof_list_head) (remove1 data (held st)))"
      using dh inj by (auto simp: distinct_map rem intro: inj_on_subset)
    have s': "(\<lambda>data. data - sizeof_list_head) ` set (remove1 data (held st)) \<subseteq>
        B - {data - sizeof_list_head}"
      using sub inj h unfolding rem by (auto simp: inj_on_def)
    from accounted_give [OF acc inB] d' s' nts show ?thesis
      unfolding st' owned_apart_def
      by (intro exI [of _ "B - {data - sizeof_list_head}"]) auto
  next
    case Sleepy
    with assms(2) obtain p' s' where
      run: "rtsafe_memory_pool_sleepy (the_pool st) (the_sys st) = Inr (p', s')" and
      st': "st' = st\<lparr>the_pool := p', the_sys := s'\<rparr>"
      by (auto split: sum.splits)
    from rtsafe_memory_pool_sleepy_keeps [OF run, of B] acc sub dist ts show ?thesis
      unfolding st' owned_apart_def
      by (intro exI [of _ B]) (auto simp: same_config_def split: if_splits)
  qed
qed

lemma run_owned_apart:
  "owned_apart st \<Longrightarrow> run cs st = Inr st' \<Longrightarrow> owned_apart st'"
proof (induction cs arbitrary: st)
  case Nil
  then show ?case by simp
next
  case (Cons c cs)
  then obtain st1 where s: "step c st = Inr st1" and r: "run cs st1 = Inr st'"
    by (auto split: sum.splits)
  from Cons.IH [OF step_owned_apart [OF Cons.prems(1) s] r] show ?case .
qed

lemma owned_apart_create:
  assumes "rtsafe_memory_pool_create dsize minp maxp thread_safe s0 = Inr (Some p0, s1)"
  shows "owned_apart \<lparr>the_pool = p0, the_sys = s1, held = []\<rparr>"
  using rtsafe_memory_pool_create_Some [OF assms]
  unfolding owned_apart_def
  by (intro exI [of _ "insert (pool_ptr p0) (set (live s0))"]) (auto split: if_splits)

lemma owned_apart_lists:
  assumes "owned_apart st"
  shows "set (unused (the_pool st)) \<inter> set (pending (the_pool st)) = {} \<and>
    distinct (unused (the_pool st)) \<and> distinct (pending (the_pool st)) \<and>
    (\<forall>data \<in> set (held st).
       data - sizeof_list_head \<notin> set (unused (the_pool st)) \<union> set (pending (the_pool st)))"
  using assms by (auto simp: owned_apart_def accounted_def)

text \<open>The counters of a session: no assertion fails and the invariant is kept.\<close>

lemma uint_of_length: "unat (c :: uint) = n \<Longrightarrow> c = of_nat n"
  by auto

lemma sleepy_grow_unused_counted:
  "sleepy_grow_unused p s = (ok, p', s') \<Longrightarrow>
   unused_count p = of_nat (length (unused p)) \<Longrightarrow>
   unused_count p' = of_nat (length (unused p'))"
proof (induction p s rule: sleepy_grow_unused.induct)
  case (1 p s)
  show ?case
  proof (cases "unused_count p < min_preallocated p")
    case False
    with "1.prems" show ?thesis by (simp add: sleepy_grow_unused_stop)
  next
    case True
    obtain r s1 where m: "malloc s = (r, s1)" by (cases "malloc s")
    show ?thesis
    proof (cases r)
      case None
      with True m "1.prems" show ?thesis by (simp add: sleepy_grow_unused_fail)
    next
      case (Some n)
      with True m "1.prems" have run:
        "sleepy_grow_unused
           (p\<lparr>unused := list_add_tail n (unused p), unused_count := unused_count p + 1\<rparr>) s1 =
           (ok, p', s')"
        by (simp add: sleepy_grow_unused_step)
      from "1.IH" [OF True m [symmetric] Some run] "1.prems"(2) show ?thesis
        by (simp add: list_add_tail_def)
    qed
  qed
qed

lemma sleepy_trim_unused_counted:
  "unused_count p = of_nat (length (unused p)) \<Longrightarrow>
   \<exists>p' s'. sleepy_trim_unused p s = Inr (p', s') \<and>
     unused_count p' = of_nat (length (unused p'))"
proof (induction p s rule: sleepy_trim_unused.induct)
  case (1 p s)
  show ?case
  proof (cases "max_preallocated p < unused_count p")
    case False
    with "1.prems" show ?thesis by (simp add: sleepy_trim_unused_stop)
  next
    case True
    then have "unused_count p \<noteq> 0" by (metis word_not_simps(1))
    with "1.prems" obtain n ns where u: "unused p = n # ns"
      by (cases "unused p") auto
    then have ne: "\<not> list_empty (unused p)" by simp
    have "unused_count p - 1 = of_nat (length (list_del (list_next (unused p)) (unused p)))"
      using u "1.prems" by simp
    from "1.IH" [OF True ne refl] this True ne show ?thesis
      by (simp add: sleepy_trim_unused_step)
  qed
qed

lemma rtsafe_memory_pool_sleepy_counted:
  assumes "unused_count p = of_nat (length (unused p))"
    and "enforce_thread_safety p \<longrightarrow> min_preallocated p < max_preallocated p"
  shows "\<exists>p' s'. rtsafe_memory_pool_sleepy p s = Inr (p', s') \<and>
    unused_count p' = of_nat (length (unused p'))"
proof (cases "enforce_thread_safety p")
  case True
  with assms(2) obtain p' s' where run: "rtsafe_memory_pool_sleepy p s = Inr (p', s')"
    using rtsafe_memory_pool_sleepy_runs [of p s] by auto
  from rtsafe_memory_pool_sleepy_keeps [OF run, of "{}"] True assms(1) run show ?thesis
    by simp
next
  case False
  obtain ok p1 s1 where g: "sleepy_grow_unused p s = (ok, p1, s1)"
    by (cases "sleepy_grow_unused p s")
  note c1 = sleepy_grow_unused_counted [OF g assms(1)]
  from sleepy_trim_unused_counted [OF c1, of s1] c1 g False show ?thesis
    by (cases ok) (auto simp: rtsafe_memory_pool_sleepy_def)
qed

lemma step_steady:
  assumes "steady st"
  shows "step c st \<noteq> Inl (Aborted f)" and "step c st = Inr st' \<Longrightarrow> steady st'"
proof -
  let ?p = "the_pool st"
  from assms have cnt: "unused_count ?p = of_nat (length (unused ?p))"
    and ts: "enforce_thread_safety ?p \<longrightarrow>
      min_preallocated ?p < max_preallocated ?p \<and> unused ?p = [] \<and> held st = []"
    by (simp_all add: steady_def)
  have "step c st \<noteq> Inl (Aborted f) \<and> (step c st = Inr st' \<longrightarrow> steady st')"
  proof (cases c)
    case (Allocate trylock)
    show ?thesis
    proof (cases "unused ?p")
      case Nil
      with Allocate assms show ?thesis
        by (auto simp: rtsafe_memory_pool_allocate_def)
    next
      case (Cons n ns)
      with ts have "\<not> enforce_thread_safety ?p" by auto
      with Allocate Cons cnt show ?thesis
        by (auto simp: rtsafe_memory_pool_allocate_def Let_def steady_def)
    qed
  next
    case (Deallocate data trylock)
    show ?thesis
    proof (cases "enforce_thread_safety ?p")
      case True
      with ts Deallocate show ?thesis by simp
    next
      case False
      with Deallocate cnt show ?thesis
        by (auto simp: rtsafe_memory_pool_deallocate_def Let_def steady_def list_add_tail_def)
    qed
  next
    case Sleepy
    from rtsafe_memory_pool_sleepy_counted [OF cnt, of "the_sys st"] ts obtain p' s' where
      run: "rtsafe_memory_pool_sleepy ?p (the_sys st) = Inr (p', s')" and
      c': "unused_count p' = of_nat (length (unused p'))"
      by auto
    from rtsafe_memory_pool_sleepy_keeps [OF run, of "{}"] ts c' run Sleepy show ?thesis
      by (auto simp: steady_def same_config_def split: if_splits)
  qed
  then show "step c st \<noteq> Inl (Aborted f)" and "step c st = Inr st' \<Longrightarrow> steady st'"
    by simp_all
qed

lemma run_steady:
  "steady st \<Longrightarrow> run cs st \<noteq> Inl (Aborted f) \<and> (run cs st = Inr st' \<longrightarrow> steady st')"
proof (induction cs arbitrary: st)
  case Nil
  then show ?case by auto
next
  case (Cons c cs)
  show ?case
  proof (cases "step c st")
    case (Inl e)
    with step_steady(1) [OF Cons.prems, of c f] show ?thesis by auto
  next
    case (Inr st1)
    from step_steady(2) [OF Cons.prems Inr] have "steady st1" .
    from Cons.IH [OF this] Inr show ?thesis by simp
  qed
qed

lemma steady_create:
  assumes "rtsafe_memory_pool_create dsize minp maxp thread_safe s0 = Inr (Some p0, s1)"
  shows "steady \<lparr>the_pool = p0, the_sys = s, held = []\<rparr>"
  using rtsafe_memory_pool_create_Some [OF assms]
  by (auto simp: steady_def uint_of_length split: if_splits)

subsection \<open>Blocks of a pool and their release\<close>

lemma destroy_unused_frees:
  "unat (unused_count p) = length (unused p) \<Longrightarrow>
   \<exists>p' s'. destroy_unused p s = Inr (p', s') \<and> unused p' = [] \<and>
     pending p' = pending p \<and> pool_ptr p' = pool_ptr p \<and>
     enforce_thread_safety p' = enforce_thread_safety p \<and>
     set (live s') = set (live s) - set (unused p) \<and> grant s' = grant s"
proof (induction p s rule: destroy_unused.induct)
  case (1 p s)
  show ?case
  proof (cases "unused_count p = 0")
    case True
    with "1.prems" show ?thesis by (simp add: destroy_unused_stop)
  next
    case False
    with "1.prems" obtain n ns where u: "unused p = n # ns"
      by (cases "unused p") (auto simp: unat_eq_zero)
    then have ne: "\<not> list_empty (unused p)" by simp
    have "unat (unused_count p - 1) = length (list_del (list_next (unused p)) (unused p))"
      using u "1.prems" by (simp add: uint_pred_Suc)
    from "1.IH" [OF False ne refl] this False ne u show ?thesis
      by (auto simp: destroy_unused_step)
  qed
qed

lemma destroy_pending_frees:
  "destroy_pending p s = (p', s') \<Longrightarrow>
   pool_ptr p' = pool_ptr p \<and> set (live s') = set (live s) - set (pending p) \<and>
   grant s' = grant s"
proof (induction p s rule: destroy_pending.induct)
  case (1 p s)
  show ?case
  proof (cases "pending p")
    case Nil
    with "1.prems" show ?thesis by (simp add: destroy_pending_stop)
  next
    case (Cons n ns)
    then have ne: "\<not> list_empty (pending p)" by simp
    with "1.prems" have run:
      "destroy_pending (p\<lparr>pending := list_del (list_next (pending p)) (pending p)\<rparr>)
         (free (list_next (pending p)) s) = (p', s')"
      by (simp add: destroy_pending_step)
    from "1.IH" [OF ne refl run] Cons show ?thesis by auto
  qed
qed

lemma rtsafe_memory_pool_destroy_frees:
  assumes "destroyable p"
  shows "\<exists>s'. rtsafe_memory_pool_destroy p s = Inr s' \<and>
    set (live s') = set (live s) - blocks p \<and> grant s' = grant s"
proof -
  from assms have u: "used_count p = 0" "unat (unused_count p) = length (unused p)"
    and pe: "enforce_thread_safety p \<or> pending p = []"
    by (simp_all add: destroyable_def)
  from destroy_unused_frees [OF u(2), of s] obtain p1 s1 where
    d: "destroy_unused p s = Inr (p1, s1)" and
    p1: "unused p1 = []" "pending p1 = pending p" "pool_ptr p1 = pool_ptr p"
      "enforce_thread_safety p1 = enforce_thread_safety p" and
    s1: "set (live s1) = set (live s) - set (unused p)" "grant s1 = grant s"
    by blast
  show ?thesis
  proof (cases "enforce_thread_safety p")
    case True
    obtain p2 s2 where dp: "destroy_pending p1 s1 = (p2, s2)"
      by (cases "destroy_pending p1 s1")
    from destroy_pending_frees [OF dp] d dp u p1 s1 True show ?thesis
      by (auto simp: rtsafe_memory_pool_destroy_def blocks_def)
  next
    case False
    with pe d u p1 s1 show ?thesis
      by (auto simp: rtsafe_memory_pool_destroy_def blocks_def)
  qed
qed

lemma init_destroy_pools_frees:
  "unat i \<le> length ps \<Longrightarrow> \<forall>g \<in> set (take (unat i) ps). destroyable (pool g) \<Longrightarrow>
   \<exists>s'. init_destroy_pools i ps s = Inr s' \<and>
     set (live s') = set (live s) - (\<Union>g \<in> set (take (unat i) ps). blocks (pool g)) \<and>
     grant s' = grant s"
proof (induction i ps s rule: init_destroy_pools.induct)
  case (1 i ps s)
  show ?case
  proof (cases "0 < i")
    case False
    then have "i = 0" by (simp add: word_neq_0_conv [symmetric])
    then show ?thesis by (subst init_destroy_pools.simps) simp
  next
    case True
    then have "i \<noteq> 0" by auto
    then obtain k where k: "unat i = Suc k" "unat (i - 1) = k"
      by (metis uint_pred_Suc not0_implies_Suc unat_eq_zero)
    with "1.prems" have klt: "k < length ps" by simp
    then have tk: "take (Suc k) ps = take k ps @ [ps ! k]"
      by (simp add: take_Suc_conv_app_nth)
    from "1.prems"(2) k tk have dk: "destroyable (pool (ps ! k))" by simp
    from rtsafe_memory_pool_destroy_frees [OF dk, of s] obtain s1 where
      d: "rtsafe_memory_pool_destroy (pool (ps ! k)) s = Inr s1" and
      s1: "set (live s1) = set (live s) - blocks (pool (ps ! k))" "grant s1 = grant s"
      by blast
    have "\<forall>g \<in> set (take (unat (i - 1)) ps). destroyable (pool g)"
      using "1.prems"(2) k tk by simp
    with "1.IH" [OF True, of s1] d k klt obtain s' where
      r: "init_destroy_pools (i - 1) ps s1 = Inr s'" and
      s': "set (live s') = set (live s1) - (\<Union>g \<in> set (take k ps). blocks (pool g))"
        "grant s' = grant s1"
      by auto
    from True d k r have "init_destroy_pools i ps s = Inr s'"
      by (subst init_destroy_pools.simps) simp
    with s' s1 k tk show ?thesis by auto
  qed
qed

subsection \<open>Construction of the tiered allocator\<close>

lemma tracked_create:
  assumes "tracked B ps s"
    and "rtsafe_memory_pool_create ds mn mx ts s = Inr (Some p, s')"
  shows "tracked B (ps @ [\<lparr>size_p = z, pool = p\<rparr>]) s'"
proof -
  note c = rtsafe_memory_pool_create_Some [OF assms(2)]
  from c have d: "destroyable p"
    by (auto simp: destroyable_def split: if_splits)
  from c have l: "set (live s') = set (live s) \<union> blocks p" "blocks p \<inter> set (live s) = {}"
    by (auto simp: accounted_def blocks_def)
  with assms(1) d show ?thesis
    by (auto simp: tracked_def)
qed

lemma init_create_pools_prefix:
  "init_create_pools k pmin pmax ts i sz ps s = Inr (Some ps', s') \<Longrightarrow>
   i \<le> k \<Longrightarrow> k \<le> count \<Longrightarrow> unat i = length ps \<Longrightarrow>
   init_create_pools count pmin pmax ts i sz ps s =
     init_create_pools count pmin pmax ts k (push_bit (unat k - unat i) sz) ps' s' \<and>
   unat k = length ps' \<and> (tracked B ps s \<longrightarrow> tracked B ps' s')"
proof (induction k pmin pmax ts i sz ps s rule: init_create_pools.induct)
  case (1 k pmin pmax ts i sz ps s)
  show ?case
  proof (cases "i < k")
    case False
    with "1.prems" have ik: "i = k" by simp
    with "1.prems"(1) have "ps' = ps" "s' = s"
      by (subst (asm) init_create_pools.simps, simp)+
    with ik "1.prems" show ?thesis by simp
  next
    case True
    from "1.prems"(1) True obtain p s1 where
      c: "rtsafe_memory_pool_create (sz - DATA_SUB) pmin pmax ts s = Inr (Some p, s1)" and
      r: "init_create_pools k pmin pmax ts (i + 1) (push_bit 1 sz)
            (ps @ [\<lparr>size_p = sz - DATA_SUB, pool = p\<rparr>]) s1 = Inr (Some ps', s')"
      by (subst (asm) init_create_pools.simps)
        (auto split: sum.splits option.splits prod.splits)
    have le: "i + 1 \<le> k" using True by (simp add: inc_le)
    have n: "unat (i + 1) = length (ps @ [\<lparr>size_p = sz - DATA_SUB, pool = p\<rparr>])"
      using True "1.prems"(4) by (simp add: uint_succ_below)
    have lt: "i < count" using True "1.prems"(3) by simp
    have u: "unat (i + 1) = Suc (unat i)" using True by (simp add: uint_succ_below)
    define d where "d = unat k - Suc (unat i)"
    from True have "unat i < unat k" by (simp add: word_less_nat_alt)
    then have d: "unat k - unat i = Suc d" by (simp add: d_def)
    have sh: "push_bit (unat k - unat (i + 1)) (push_bit 1 sz) =
        push_bit (unat k - unat i) sz"
      unfolding u d d_def [symmetric] by (simp add: push_bit_Suc)
    note IH = "1.IH" [OF True c refl refl r le "1.prems"(3) n]
    from lt c have
      "init_create_pools count pmin pmax ts i sz ps s =
       init_create_pools count pmin pmax ts (i + 1) (push_bit 1 sz)
         (ps @ [\<lparr>size_p = sz - DATA_SUB, pool = p\<rparr>]) s1"
      by (subst init_create_pools.simps) simp
    then show ?thesis
      using IH sh tracked_create [OF _ c, of B ps "sz - DATA_SUB"] by auto
  qed
qed

lemma init_create_pools_failure:
  assumes "tracked B ps s" and "unat k = length ps" and "k < count"
    and "rtsafe_memory_pool_create (sz - DATA_SUB) pmin pmax ts s = Inr (None, s1)"
  shows "\<exists>s2. init_create_pools count pmin pmax ts k sz ps s = Inr (None, s2) \<and>
    set (live s2) = B"
proof -
  from rtsafe_memory_pool_create_None [OF assms(4)]
  have l1: "set (live s1) = set (live s)" by simp
  from assms(1,2) have "\<forall>g \<in> set (take (unat k) ps). destroyable (pool g)"
    by (simp add: tracked_def)
  with init_destroy_pools_frees [of k ps s1] assms(2) obtain s2 where
    d: "init_destroy_pools k ps s1 = Inr s2" and
    l2: "set (live s2) = set (live s1) - (\<Union>g \<in> set (take (unat k) ps). blocks (pool g))"
    by auto
  from l1 l2 assms(1,2) have "set (live s2) = B"
    by (auto simp: tracked_def)
  with assms(3,4) d show ?thesis
    by (subst init_create_pools.simps) simp
qed

section \<open>The claims\<close>

subsection \<open>Allocation pops the head of the unused list\<close>



subsection \<open>No chunk in two places\<close>

text \<open>
  C2: on a pool returned by construction, thread-safe or not, after every sequence of
  allocations, deallocations and maintenance calls (each with or without the mutex,
  under every pattern of allocation failures), the unused and the pending list have no
  chunk in common and hold no chunk twice, no chunk whose pointer the client holds is
  on either list, and the chunk of a pointer that the next allocation returns is on
  neither list at that moment.
\<close>

theorem no_chunk_in_two_places:
  assumes "rtsafe_memory_pool_create dsize minp maxp thread_safe s0 = Inr (Some p0, s1)"
    and "run cs \<lparr>the_pool = p0, the_sys = s1, held = []\<rparr> = Inr st"
  shows "set (unused (the_pool st)) \<inter> set (pending (the_pool st)) = {} \<and>
    distinct (unused (the_pool st)) \<and> distinct (pending (the_pool st)) \<and>
    (\<forall>data \<in> set (held st).
       data - sizeof_list_head \<notin> set (unused (the_pool st)) \<union> set (pending (the_pool st))) \<and>
    (\<forall>trylock data p'.
       rtsafe_memory_pool_allocate (the_pool st) trylock = (Some data, p') \<longrightarrow>
       data - sizeof_list_head \<notin> set (unused p') \<union> set (pending p'))"
proof -
  from run_owned_apart [OF owned_apart_create [OF assms(1)] assms(2)]
  have inv: "owned_apart st" .
  have "data - sizeof_list_head \<notin> set (unused p') \<union> set (pending p')"
    if a: "rtsafe_memory_pool_allocate (the_pool st) trylock = (Some data, p')"
    for trylock data p'
  proof -
    from a have "step (Allocate trylock) st = Inr (st\<lparr>the_pool := p', held := data # held st\<rparr>)"
      by simp
    from owned_apart_lists [OF step_owned_apart [OF inv this]] show ?thesis by simp
  qed
  with owned_apart_lists [OF inv] show ?thesis by blast
qed

theorem no_chunk_in_two_places_witness:
  "(case rtsafe_memory_pool_create 924 2 3 False all_granted of
      Inr (Some p0, s1) \<Rightarrow>
        (case run [Allocate True, Allocate True, Sleepy, Deallocate 40 True, Allocate True,
                   Deallocate 56 True, Sleepy]
                \<lparr>the_pool = p0, the_sys = s1, held = []\<rparr> of
           Inr st \<Rightarrow>
             held st = [72] \<and> unused (the_pool st) = [80, 32, 48] \<and>
             64 \<notin> set (unused (the_pool st)) \<union> set (pending (the_pool st)) \<and>
             distinct (unused (the_pool st))
         | _ \<Rightarrow> False)
    | _ \<Rightarrow> False)"
proof -
  have pre: "case rtsafe_memory_pool_create 924 2 3 False all_granted of
      Inr (Some p0, s1) \<Rightarrow>
        (case run [Allocate True, Allocate True, Sleepy, Deallocate 40 True, Allocate True,
                   Deallocate 56 True, Sleepy]
                \<lparr>the_pool = p0, the_sys = s1, held = []\<rparr> of
           Inr st \<Rightarrow> held st = [72] \<and> unused (the_pool st) = [80, 32, 48]
         | _ \<Rightarrow> False)
    | _ \<Rightarrow> False"
    by code_simp
  obtain p0 s1 where
    c: "rtsafe_memory_pool_create 924 2 3 False all_granted = Inr (Some p0, s1)"
    using pre by (simp split: sum.splits prod.splits option.splits)
  obtain st where
    r: "run [Allocate True, Allocate True, Sleepy, Deallocate 40 True, Allocate True,
             Deallocate 56 True, Sleepy]
          \<lparr>the_pool = p0, the_sys = s1, held = []\<rparr> = Inr st"
    and st: "held st = [72]" "unused (the_pool st) = [80, 32, 48]"
    using pre unfolding c by (simp split: sum.splits)
  from no_chunk_in_two_places [OF c r] st
  have "64 \<notin> set (unused (the_pool st)) \<union> set (pending (the_pool st)) \<and>
    distinct (unused (the_pool st))"
    by (simp add: sizeof_list_head_def)
  with st show ?thesis unfolding c option.case sum.case prod.case r by simp
qed

subsection \<open>Repeated maintenance\<close>

text \<open>
  C3: repeated maintenance should converge and then change nothing. On a thread-safe
  pool created with a minimum of 1 and a maximum of 2, where every allocation succeeds,
  construction puts one chunk on the pending list, and each further maintenance call
  allocates one more: the local \<^verbatim>\<open>count\<close> starts from \<open>unused_count2\<close>, which
  maintenance never updates and which does not count the pending list.
\<close>

theorem sleepy_grows_pending_on_every_call:
  "(case rtsafe_memory_pool_create 924 1 2 True all_granted of
      Inr (Some p, s) \<Rightarrow>
        length (pending p) = 1 \<and> length (live s) = 2 \<and>
        (case rtsafe_memory_pool_sleepy p s of
           Inr (p1, s1) \<Rightarrow>
             length (pending p1) = 2 \<and> length (live s1) = 3 \<and>
             (case rtsafe_memory_pool_sleepy p1 s1 of
                Inr (p2, s2) \<Rightarrow>
                  length (pending p2) = 3 \<and> length (live s2) = 4 \<and>
                  unused p2 = [] \<and> max_preallocated p2 = 2
              | _ \<Rightarrow> False)
         | _ \<Rightarrow> False)
    | _ \<Rightarrow> False)"
  by code_simp

subsection \<open>Allocation until available\<close>

text \<open>
  C4: allocate-until-available should terminate with a pointer whenever
  \<open>min_preallocated > 0\<close> and allocations succeed. On the thread-safe pool created with
  a minimum of 1 and a maximum of 2, where every request is granted, the loop never
  returns, with or without the mutex: maintenance puts its chunks on the pending list,
  allocation returns \<^verbatim>\<open>NULL\<close> on the empty unused list before it reaches the step
  that moves chunks from the pending list, and the loop repeats.
\<close>

theorem allocate_sleepy_never_returns:
  "(case rtsafe_memory_pool_create 924 1 2 True all_granted of
      Inr (Some p, s) \<Rightarrow>
        rtsafe_memory_pool_allocate_sleepy (\<lambda>i. True) 0 p s = None \<and>
        rtsafe_memory_pool_allocate_sleepy (\<lambda>i. False) 0 p s = None
    | _ \<Rightarrow> False)"
proof -
  have "case rtsafe_memory_pool_create 924 1 2 True all_granted of
      Inr (Some p, s) \<Rightarrow> True | _ \<Rightarrow> False"
    by code_simp
  then obtain p s where
    c: "rtsafe_memory_pool_create 924 1 2 True all_granted = Inr (Some p, s)"
    by (auto split: sum.splits option.splits)
  from rtsafe_memory_pool_create_Some [OF c]
  have "enforce_thread_safety p" "unused p = []" "min_preallocated p < max_preallocated p"
    by auto
  then have "rtsafe_memory_pool_allocate_sleepy trylock 0 p s = None" for trylock
    by (rule allocate_sleepy_thread_safe_diverges)
  then show ?thesis by (simp add: c)
qed

subsection \<open>A request of the maximum size\<close>

text \<open>
  C5: an allocator constructed for a maximum request size should serve a request of
  exactly that size. Constructed for \<open>max_size = 2048\<close>, the counting loop stops at
  two size classes (it compares \<open>1024 << pools_count\<close>, not the size of the last
  class \<open>1024 << (pools_count - 1)\<close>, with \<open>max_size + 100\<close>), the pools have the
  sizes 924 and 1948, and a request of 2048 bytes, 2052 with the handle in front, fits
  neither: it is rejected as too big.
\<close>

theorem request_of_max_size_rejected:
  "(case rtsafe_memory_init 2048 1 2 False all_granted of
      Inr (Some m, s) \<Rightarrow>
        pools_count m = 2 \<and> map size_p (pools m) = [924, 1948] \<and>
        fst (rtsafe_memory_allocate m 2048 True) = Inl Data_size_too_big
    | _ \<Rightarrow> False)"
  by code_simp

subsection \<open>The first allocation from a thread-safe pool\<close>

text \<open>
  C6: the first allocation from a freshly created thread-safe pool returns \<^verbatim>\<open>NULL\<close>
  and leaves the pool as it is, whether or not the mutex is acquired: the unused list
  is empty, every chunk that construction allocated is on the pending list, and when
  every request of the system is granted these are \<open>min_preallocated\<close> chunks.
\<close>

theorem first_allocate_of_thread_safe_pool_fails:
  assumes "rtsafe_memory_pool_create dsize minp maxp True s = Inr (Some p, s')"
  shows "rtsafe_memory_pool_allocate p trylock = (None, p) \<and> unused p = [] \<and>
    set (pending p) = set (live s') - insert (pool_ptr p) (set (live s)) \<and>
    ((\<forall>n. grant s n) \<longrightarrow> length (pending p) = unat minp)"
proof -
  note c = rtsafe_memory_pool_create_Some [OF assms]
  from c have "rtsafe_memory_pool_allocate p trylock = (None, p)"
    by (simp add: rtsafe_memory_pool_allocate_def)
  moreover from c have "unused p = []" by simp
  moreover from c have "set (pending p) = set (live s') - insert (pool_ptr p) (set (live s))"
    by (auto simp: accounted_def)
  moreover have "length (pending p) = unat minp" if g: "\<forall>n. grant s n"
  proof -
    from rtsafe_memory_pool_create_sleepy [OF assms] obtain ptr s0 where
      g0: "grant s0 = grant s" and
      run: "rtsafe_memory_pool_sleepy
        \<lparr>pool_ptr = ptr, data_size = dsize, min_preallocated = minp,
         max_preallocated = maxp, used_count = 0, unused = [], unused_count = 0,
         enforce_thread_safety = True, unused_count2 = 0, pending = []\<rparr> s0 = Inr (p, s')"
      by blast
    from g g0 have "\<forall>n. grant s0 n" by simp
    from rtsafe_memory_pool_sleepy_granted [OF _ this _ run] show ?thesis by simp
  qed
  ultimately show ?thesis by blast
qed

theorem first_allocate_of_thread_safe_pool_fails_witness:
  "(case rtsafe_memory_pool_create 924 2 4 True all_granted of
      Inr (Some p, s') \<Rightarrow>
        rtsafe_memory_pool_allocate p True = (None, p) \<and> length (pending p) = 2
    | _ \<Rightarrow> False)"
proof -
  obtain r where r: "rtsafe_memory_pool_create 924 2 4 True all_granted = r" by simp
  have "case r of Inr (Some p, s') \<Rightarrow> True | _ \<Rightarrow> False"
    unfolding r [symmetric] by code_simp
  then obtain p s' where
    c: "rtsafe_memory_pool_create 924 2 4 True all_granted = Inr (Some p, s')"
    using r by (auto split: sum.splits option.splits)
  from first_allocate_of_thread_safe_pool_fails [OF c, of True]
  have "rtsafe_memory_pool_allocate p True = (None, p) \<and> length (pending p) = 2"
    by (simp add: all_granted_def)
  then show ?thesis by (simp add: c)
qed

subsection \<open>Exhaustion\<close>

text \<open>
  C7: on a pool returned by construction, thread-safe or not, after every sequence of
  calls that leaves exactly \<open>N\<close> chunks on the unused list and the in-use count at 0,
  \<open>N\<close> consecutive allocations, each with or without the mutex, return the data
  regions of these chunks in order and the next allocation returns \<^verbatim>\<open>NULL\<close>; the
  unused count is then 0 and the in-use count is \<open>N\<close> (as an unsigned int, which is
  the number \<open>N\<close> when \<open>N\<close> fits the counter).
\<close>

theorem allocations_until_exhausted:
  assumes "rtsafe_memory_pool_create dsize minp maxp thread_safe s0 = Inr (Some p0, s1)"
    and "run cs \<lparr>the_pool = p0, the_sys = s1, held = []\<rparr> = Inr st"
    and "length (unused (the_pool st)) = N" and "used_count (the_pool st) = 0"
    and "length trylocks = N"
    and "allocate_times (trylocks @ [trylock]) (the_pool st) = (rs, p')"
  shows "length rs = N + 1 \<and>
    (\<forall>k < N. rs ! k = Some (unused (the_pool st) ! k + sizeof_list_head)) \<and>
    rs ! N = None \<and> used_count p' = of_nat N \<and>
    (N < 2 ^ 32 \<longrightarrow> unat (used_count p') = N) \<and>
    unused_count p' = 0 \<and> unused p' = []"
proof -
  from run_steady [OF steady_create [OF assms(1), where s = s1], where cs = cs] assms(2)
  have st: "steady st" by simp
  then have cnt: "unused_count (the_pool st) = of_nat (length (unused (the_pool st)))"
    by (simp add: steady_def)
  have nr: "pending (the_pool st) = [] \<or> \<not> enforce_thread_safety (the_pool st) \<or>
    (\<forall>t \<in> set trylocks. \<not> t)"
  proof (cases "enforce_thread_safety (the_pool st)")
    case True
    with st assms(3,5) have "trylocks = []" by (auto simp: steady_def)
    then show ?thesis by simp
  next
    case False
    then show ?thesis by simp
  qed
  from allocate_times_pops_all [OF nr _ cnt assms(6)] assms(3,4,5)
  have *: "rs = map (\<lambda>n. Some (n + sizeof_list_head)) (unused (the_pool st)) @ [None]"
    "unused p' = []" "unused_count p' = 0" "used_count p' = of_nat N"
    by auto
  have "unat (of_nat N :: uint) = N" if "N < 2 ^ 32"
    using that by (simp add: unat_of_nat)
  with * assms(3) show ?thesis by (auto simp: nth_append)
qed

theorem allocations_until_exhausted_witness:
  "(case rtsafe_memory_pool_create 924 2 2 False all_granted of
      Inr (Some p0, s1) \<Rightarrow>
        (case allocate_times [True, False, True] p0 of
           (rs, p') \<Rightarrow> rs = [Some 40, Some 56, None] \<and> unat (used_count p') = 2 \<and>
             unused_count p' = 0)
    | _ \<Rightarrow> False)"
proof -
  have pre: "case rtsafe_memory_pool_create 924 2 2 False all_granted of
      Inr (Some p0, s1) \<Rightarrow> unused p0 = [32, 48] \<and> used_count p0 = 0
    | _ \<Rightarrow> False"
    by code_simp
  then obtain p0 s1 where
    c: "rtsafe_memory_pool_create 924 2 2 False all_granted = Inr (Some p0, s1)" and
    p: "unused p0 = [32, 48]" "used_count p0 = 0"
    by (auto split: sum.splits option.splits)
  have r: "run [] \<lparr>the_pool = p0, the_sys = s1, held = []\<rparr> =
      Inr \<lparr>the_pool = p0, the_sys = s1, held = []\<rparr>"
    by simp
  obtain rs p' where a: "allocate_times ([True, False] @ [True]) p0 = (rs, p')"
    by (cases "allocate_times ([True, False] @ [True]) p0")
  from allocations_until_exhausted [OF c r, of 2 "[True, False]" True rs p'] p a
  have len: "length rs = 3"
    and nth: "\<forall>k < 2. rs ! k = Some ([32, 48] ! k + sizeof_list_head)"
    and rest: "rs ! 2 = None" "unat (used_count p') = 2" "unused_count p' = 0"
    by simp_all
  from nth [rule_format, of 0] nth [rule_format, of 1]
  have "rs ! 0 = Some 40" "rs ! 1 = Some 56"
    by (simp_all add: sizeof_list_head_def)
  with len rest
  have "rs = [Some 40, Some 56, None] \<and> unat (used_count p') = 2 \<and> unused_count p' = 0"
    by (cases rs; cases "tl rs"; cases "tl (tl rs)") auto
  with a show ?thesis by (simp add: c)
qed

subsection \<open>Assertions of construction and maintenance\<close>

text \<open>
  C8 as the code has it: construction accepts a minimum that is at most the maximum for
  a pool without thread safety, and a minimum strictly below the maximum for a
  thread-safe pool (the assertion of the thread-safe maintenance branch). Under that
  precondition construction returns without a failed assertion; it returns a pool
  unless the allocation of the control structure or, for a thread-safe pool, the
  creation of the mutex is denied; and no assertion of maintenance, allocation or
  deallocation fails in any sequence of calls on the pool it returns, in any system
  state.
\<close>

theorem construction_and_calls_assertions_hold:
  assumes "if thread_safe then minp < maxp else minp \<le> maxp"
  shows "\<exists>r s'. rtsafe_memory_pool_create dsize minp maxp thread_safe s = Inr (r, s') \<and>
    (r = None \<longleftrightarrow> \<not> grant s (calls s) \<or> thread_safe \<and> \<not> grant s (Suc (calls s))) \<and>
    (\<forall>p cs s1 f. r = Some p \<longrightarrow>
       run cs \<lparr>the_pool = p, the_sys = s1, held = []\<rparr> \<noteq> Inl (Aborted f))"
proof -
  from rtsafe_memory_pool_create_outcome [OF assms, of dsize s] obtain r s' where
    c: "rtsafe_memory_pool_create dsize minp maxp thread_safe s = Inr (r, s')" and
    n: "r = None \<longleftrightarrow> \<not> grant s (calls s) \<or> thread_safe \<and> \<not> grant s (Suc (calls s))"
    by blast
  have "run cs \<lparr>the_pool = p, the_sys = s1, held = []\<rparr> \<noteq> Inl (Aborted f)"
    if "r = Some p" for p cs s1 f
    using run_steady [OF steady_create [OF c [unfolded that], where s = s1],
        where cs = cs and f = f] by simp
  with c n show ?thesis by blast
qed

theorem construction_and_calls_assertions_hold_witness:
  "(if False then (1 :: size_t) < 1 else (1 :: size_t) \<le> 1) \<and>
   (\<exists>p s'. rtsafe_memory_pool_create 924 1 1 False all_granted = Inr (Some p, s') \<and>
      (\<forall>f. run [Allocate True, Sleepy, Deallocate 40 True, Sleepy]
              \<lparr>the_pool = p, the_sys = s', held = []\<rparr> \<noteq> Inl (Aborted f))) \<and>
   (case rtsafe_memory_pool_create 924 1 1 False all_granted of
      Inr (Some p, s') \<Rightarrow>
        (case run [Allocate True, Sleepy, Deallocate 40 True, Sleepy]
                \<lparr>the_pool = p, the_sys = s', held = []\<rparr> of
           Inr st \<Rightarrow> unused (the_pool st) = [32] \<and> held st = []
         | _ \<Rightarrow> False)
    | _ \<Rightarrow> False)"
proof -
  from construction_and_calls_assertions_hold [of False 1 1 924 all_granted]
  obtain r s' where
    c: "rtsafe_memory_pool_create 924 1 1 False all_granted = Inr (r, s')" and
    n: "r = None \<longleftrightarrow> \<not> grant all_granted (calls all_granted) \<or>
      False \<and> \<not> grant all_granted (Suc (calls all_granted))" and
    a: "\<forall>p cs s1 f. r = Some p \<longrightarrow>
      run cs \<lparr>the_pool = p, the_sys = s1, held = []\<rparr> \<noteq> Inl (Aborted f)"
    by auto
  from n obtain p where p: "r = Some p" by (auto simp: all_granted_def)
  with a have "\<forall>f. run [Allocate True, Sleepy, Deallocate 40 True, Sleepy]
      \<lparr>the_pool = p, the_sys = s', held = []\<rparr> \<noteq> Inl (Aborted f)"
    by blast
  with c p have first: "\<exists>p s'.
      rtsafe_memory_pool_create 924 1 1 False all_granted = Inr (Some p, s') \<and>
      (\<forall>f. run [Allocate True, Sleepy, Deallocate 40 True, Sleepy]
              \<lparr>the_pool = p, the_sys = s', held = []\<rparr> \<noteq> Inl (Aborted f))"
    by simp
  have second: "case rtsafe_memory_pool_create 924 1 1 False all_granted of
      Inr (Some p, s') \<Rightarrow>
        (case run [Allocate True, Sleepy, Deallocate 40 True, Sleepy]
                \<lparr>the_pool = p, the_sys = s', held = []\<rparr> of
           Inr st \<Rightarrow> unused (the_pool st) = [32] \<and> held st = []
         | _ \<Rightarrow> False)
    | _ \<Rightarrow> False"
    by code_simp
  from first second show ?thesis by simp
qed

text \<open>
  C8 as stated fails: a thread-safe pool with the minimum equal to the maximum passes
  the assertion of construction and fails the assertion of its maintenance pass.
\<close>

theorem thread_safe_create_min_equals_max_faults:
  "(case rtsafe_memory_pool_create 924 1 1 True all_granted of
      Inl f \<Rightarrow> f = Assertion 157
    | Inr r \<Rightarrow> False)"
  by code_simp

subsection \<open>Deallocation followed by allocation\<close>

text \<open>
  C9 as the code has it: deallocation appends the chunk to the tail of the unused list
  and allocation pops its head, so a deallocation of the pointer to chunk \<open>n\<close>
  immediately followed by an allocation returns the first chunk of the unused list
  with \<open>n\<close> appended: the pointer just deallocated when the unused list was empty,
  the oldest unused chunk of the same pool otherwise. This is stated for calls in which
  no opportunistic step runs (the pool is not thread-safe, or neither call acquires the
  mutex).
\<close>

theorem deallocate_then_allocate:
  assumes "\<not> enforce_thread_safety p \<or> (\<not> trylock1 \<and> \<not> trylock2)"
  shows "\<exists>p1 p2.
    rtsafe_memory_pool_deallocate p (n + sizeof_list_head) trylock1 = Inr p1 \<and>
    rtsafe_memory_pool_allocate p1 trylock2 =
      (Some ((case unused p of [] \<Rightarrow> n | m # ms \<Rightarrow> m) + sizeof_list_head), p2) \<and>
    unused p2 = (case unused p of [] \<Rightarrow> [] | m # ms \<Rightarrow> ms @ [n])"
proof -
  define p1 where "p1 = p\<lparr>unused := list_add_tail n (unused p),
    used_count := used_count p - 1, unused_count := unused_count p + 1\<rparr>"
  from assms have d: "rtsafe_memory_pool_deallocate p (n + sizeof_list_head) trylock1 = Inr p1"
    by (auto simp: rtsafe_memory_pool_deallocate_def p1_def)
  have u: "unused p1 = unused p @ [n]" "enforce_thread_safety p1 = enforce_thread_safety p"
    by (simp_all add: p1_def list_add_tail_def)
  obtain m ms where ms: "unused p1 = m # ms"
    "m = (case unused p of [] \<Rightarrow> n | m # ms \<Rightarrow> m)"
    "ms = (case unused p of [] \<Rightarrow> [] | m # ms \<Rightarrow> ms @ [n])"
    using u by (cases "unused p") auto
  from assms u have "pending p1 = [] \<or> \<not> enforce_thread_safety p1 \<or> \<not> trylock2"
    by auto
  from allocate_without_refill [OF ms(1) this] d ms show ?thesis by auto
qed

theorem deallocate_then_allocate_witness:
  "(case rtsafe_memory_pool_create 924 1 4 False all_granted of
      Inr (Some p, s) \<Rightarrow>
        (case rtsafe_memory_pool_allocate p True of
           (Some data, p1) \<Rightarrow>
             data = 40 \<and>
             (\<exists>p2 p3. rtsafe_memory_pool_deallocate p1 data True = Inr p2 \<and>
                rtsafe_memory_pool_allocate p2 True = (Some data, p3))
         | _ \<Rightarrow> False)
    | _ \<Rightarrow> False)"
proof -
  have pre: "case rtsafe_memory_pool_create 924 1 4 False all_granted of
      Inr (Some p, s) \<Rightarrow>
        (case rtsafe_memory_pool_allocate p True of
           (Some data, p1) \<Rightarrow>
             data = 40 \<and> unused p1 = [] \<and> \<not> enforce_thread_safety p1
         | _ \<Rightarrow> False)
    | _ \<Rightarrow> False"
    by code_simp
  obtain p s where c: "rtsafe_memory_pool_create 924 1 4 False all_granted = Inr (Some p, s)"
    using pre by (simp split: sum.splits prod.splits option.splits)
  obtain p1 where a: "rtsafe_memory_pool_allocate p True = (Some 40, p1)"
    and p1: "unused p1 = []" "\<not> enforce_thread_safety p1"
    using pre unfolding c by (simp split: prod.splits option.splits)
  from deallocate_then_allocate [of p1 True True 32] p1
  have "\<exists>p2 p3. rtsafe_memory_pool_deallocate p1 40 True = Inr p2 \<and>
    rtsafe_memory_pool_allocate p2 True = (Some 40, p3)"
    by (simp add: sizeof_list_head_def) blast
  then show ?thesis unfolding c by (simp add: a)
qed

text \<open>
  C9 as stated fails: on the pool without thread safety created with two chunks, the
  first allocation returns the chunk at 32, and after its deallocation the next
  allocation returns the chunk at 48, which has waited longest.
\<close>

theorem deallocate_then_allocate_returns_oldest:
  "(case rtsafe_memory_pool_create 924 2 4 False all_granted of
      Inr (Some p, s) \<Rightarrow>
        (case rtsafe_memory_pool_allocate p True of
           (Some data, p1) \<Rightarrow>
             data = 40 \<and>
             (case rtsafe_memory_pool_deallocate p1 data True of
                Inr p2 \<Rightarrow> fst (rtsafe_memory_pool_allocate p2 True) = Some 56
              | _ \<Rightarrow> False)
         | _ \<Rightarrow> False)
    | _ \<Rightarrow> False)"
  by code_simp

subsection \<open>Failed construction of the tiered allocator\<close>

text \<open>
  C10: suppose construction of the tiered allocator has allocated its control
  structure and its table of \<open>count\<close> pools, its loop has created the pools of the
  size classes 0 to \<open>k - 1\<close> (the loop run up to \<open>k\<close> returns them as \<open>ps\<close>), and
  the creation of the pool of class \<open>k < count\<close> fails. Then construction returns
  \<^verbatim>\<open>false\<close> and no handle, the live blocks of the system are those from before the
  call, so the table and the control structure have been freed, and no block of the
  \<open>k\<close> pools created earlier (control structure, mutex-protected lists, chunks) is
  live any more.
\<close>

theorem init_failed_creation_is_reported:
  assumes "malloc s = (Some mptr, s1)"
    and "init_pools_count max_size 1 = Inr count"
    and "malloc s1 = (Some pptr, s2)"
    and "init_create_pools k prealloc_min prealloc_max thread_safe 0 DATA_MIN [] s2 =
      Inr (Some ps, sk)"
    and "k < count"
    and "rtsafe_memory_pool_create (push_bit (unat k) DATA_MIN - DATA_SUB)
      prealloc_min prealloc_max thread_safe sk = Inr (None, sk')"
  shows "\<exists>s'. rtsafe_memory_init max_size prealloc_min prealloc_max thread_safe s =
      Inr (None, s') \<and>
    set (live s') = set (live s) \<and> length ps = unat k \<and>
    (\<forall>g \<in> set ps. blocks (pool g) \<inter> set (live s') = {})"
proof -
  note l1 = malloc_Some [OF assms(1)] and l2 = malloc_Some [OF assms(3)]
  have t0: "tracked (set (live s2)) [] s2" by (simp add: tracked_def)
  from assms(5) have le: "k \<le> count" by simp
  from init_create_pools_prefix [OF assms(4) _ le, of "set (live s2)"] t0
  have eq: "init_create_pools count prealloc_min prealloc_max thread_safe 0 DATA_MIN [] s2 =
      init_create_pools count prealloc_min prealloc_max thread_safe k
        (push_bit (unat k) DATA_MIN) ps sk"
    and len: "unat k = length ps" and tk: "tracked (set (live s2)) ps sk"
    by simp_all
  from init_create_pools_failure [OF tk len assms(5,6)] obtain s3 where
    f: "init_create_pools count prealloc_min prealloc_max thread_safe k
        (push_bit (unat k) DATA_MIN) ps sk = Inr (None, s3)" and
    l3: "set (live s3) = set (live s2)"
    by blast
  define s' where "s' = free mptr (free pptr s3)"
  from assms(1,2,3) eq f have
    r: "rtsafe_memory_init max_size prealloc_min prealloc_max thread_safe s = Inr (None, s')"
    by (simp add: rtsafe_memory_init_def s'_def)
  from l1 l2 l3 have live: "set (live s') = set (live s)"
    by (auto simp: s'_def)
  from tk l1 l2 live have "\<forall>g \<in> set ps. blocks (pool g) \<inter> set (live s') = {}"
    by (auto simp: tracked_def)
  with r live len show ?thesis by auto
qed

text \<open>
  For instance, when the mutex of the second of two thread-safe pools cannot be
  created (the seventh request to the system), construction returns \<^verbatim>\<open>false\<close> and
  no block is left allocated.
\<close>

theorem init_failed_creation_is_reported_witness:
  "(case rtsafe_memory_init 2048 1 2 True (denied_at 6) of
      Inr (None, s') \<Rightarrow> set (live s') = {}
    | _ \<Rightarrow> False)"
proof -
  define s1 where "s1 = snd (malloc (denied_at 6))"
  define s2 where "s2 = snd (malloc s1)"
  define L where "L = init_create_pools 1 1 2 True 0 DATA_MIN [] s2"
  define sk where "sk = snd (projr L)"
  define C where "C = rtsafe_memory_pool_create
    (push_bit (unat (1 :: size_t)) DATA_MIN - DATA_SUB) 1 2 True sk"
  have pre: "fst (malloc (denied_at 6)) \<noteq> None \<and> fst (malloc s1) \<noteq> None \<and>
    \<not> isl L \<and> fst (projr L) \<noteq> None \<and> \<not> isl C \<and> fst (projr C) = None"
    unfolding C_def sk_def L_def s2_def s1_def by code_simp
  from pre obtain mptr where m1: "malloc (denied_at 6) = (Some mptr, s1)"
    by (cases "malloc (denied_at 6)") (auto simp: s1_def)
  from pre obtain pptr where m2: "malloc s1 = (Some pptr, s2)"
    by (cases "malloc s1") (auto simp: s2_def)
  from pre obtain ps where l: "L = Inr (Some ps, sk)"
    by (cases L; cases "projr L") (auto simp: sk_def)
  from pre obtain sk' where c: "C = Inr (None, sk')"
    by (cases C; cases "projr C") auto
  have n: "init_pools_count 2048 1 = Inr 2" by code_simp
  have lt: "(1 :: size_t) < 2" by (simp add: word_less_nat_alt)
  from init_failed_creation_is_reported
    [OF m1 n m2 l [unfolded L_def] lt c [unfolded C_def]]
  obtain s' where
    "rtsafe_memory_init 2048 1 2 True (denied_at 6) = Inr (None, s')"
    "set (live s') = set (live (denied_at 6))"
    by blast
  then show ?thesis by (simp add: denied_at_def)
qed

end
